theory Spec2Isabelle
  imports Complex_Main "HOL-Library.Multiset" "HOL-Library.Code_Target_Nat"
begin

section \<open>JavaScript strings\<close>

text \<open>
  A JavaScript string is a sequence of UTF-16 code units, and \<open>length\<close>, \<open>includes\<close>,
  \<open>startsWith\<close> and the regular expressions of the program (none has the \<open>u\<close> flag) all work
  on code units.  A code unit is a natural number here; \<open>js\<close> turns an ASCII literal into
  its code units.
\<close>

type_synonym codeunit = nat

type_synonym jsstring = "codeunit list"

definition js :: "string \<Rightarrow> jsstring" where
  "js s = map of_char s"

text \<open>\<open>s.startsWith(p)\<close>, written with the pattern first.\<close>

fun starts :: "jsstring \<Rightarrow> jsstring \<Rightarrow> bool" where
  "starts [] s = True"
| "starts (p # ps) [] = False"
| "starts (p # ps) (x # xs) = (p = x \<and> starts ps xs)"

text \<open>\<open>s.includes(p)\<close>.\<close>

fun str_includes :: "jsstring \<Rightarrow> jsstring \<Rightarrow> bool" where
  "str_includes [] p = (p = [])"
| "str_includes (x # xs) p = (starts p (x # xs) \<or> str_includes xs p)"

text \<open>
  White space as \<open>String.prototype.trim\<close> and the class \<open>\s\<close> see it: the white-space
  code points and the line terminators of ECMAScript.
\<close>

definition is_space :: "codeunit \<Rightarrow> bool" where
  "is_space c = (c \<in> {9, 10, 11, 12, 13, 32, 160, 5760, 8232, 8233, 8239, 8287, 12288, 65279}
                 \<or> (8192 \<le> c \<and> c \<le> 8202))"

definition trim :: "jsstring \<Rightarrow> jsstring" where
  "trim s = rev (dropWhile is_space (rev (dropWhile is_space s)))"

text \<open>\<open>s.replace(/lit/g, rep)\<close> for a literal, non-empty pattern: leftmost matches, not overlapping.\<close>

fun replaceAll :: "jsstring \<Rightarrow> jsstring \<Rightarrow> jsstring \<Rightarrow> jsstring" where
  "replaceAll pat rep [] = []"
| "replaceAll pat rep (x # xs) =
     (if pat \<noteq> [] \<and> starts pat (x # xs)
      then rep @ replaceAll pat rep (drop (length pat) (x # xs))
      else x # replaceAll pat rep xs)"

section \<open>Regular expressions\<close>

text \<open>
  The fragment of ECMAScript regular expressions that the program's patterns use, with the
  backtracking order of the language: a greedy quantifier tries the longer match first, a lazy
  one the shorter, an alternation its left branch.  Quantifiers apply to a character class
  (as in every pattern of the program) or, for \<open>?\<close>, to a group.  \<open>Grp\<close> is capture group 1;
  \<open>GEnd\<close> is the matcher's own marker for the end of that group and carries the input at
  its start.
\<close>

datatype rx =
    Lit jsstring
  | LitI jsstring
  | Cls "codeunit \<Rightarrow> bool"
  | Star "codeunit \<Rightarrow> bool"
  | Lazy "codeunit \<Rightarrow> bool"
  | Opt "rx list"
  | Grp "rx list"
  | Alt "rx list" "rx list"
  | GEnd jsstring

text \<open>
  Under the flag \<open>i\<close> two code units match when their canonical forms agree.  Every literal of
  the program is ASCII, and ECMAScript never canonicalises a non-ASCII code unit to an ASCII
  one, so upper-casing the ASCII letters decides the comparison.
\<close>

definition canon :: "codeunit \<Rightarrow> codeunit" where
  "canon c = (if 97 \<le> c \<and> c \<le> 122 then c - 32 else c)"

fun startsI :: "jsstring \<Rightarrow> jsstring \<Rightarrow> bool" where
  "startsI [] s = True"
| "startsI (p # ps) [] = False"
| "startsI (p # ps) (x # xs) = (canon p = canon x \<and> startsI ps xs)"

fun weight :: "rx \<Rightarrow> nat" where
  "weight (Opt rs) = Suc (sum_list (map weight rs))"
| "weight (Grp rs) = Suc (Suc (sum_list (map weight rs)))"
| "weight (Alt as bs) = Suc (sum_list (map weight as) + sum_list (map weight bs))"
| "weight _ = 1"

text \<open>
  \<open>rmatch rs s c\<close> matches the sequence \<open>rs\<close> against a prefix of \<open>s\<close>; \<open>c\<close> is the capture so
  far.  The result is the first success in backtracking order: the input left after the
  match and the capture (\<open>None\<close> is JavaScript's \<open>undefined\<close>).
\<close>

function (sequential) rmatch ::
  "rx list \<Rightarrow> jsstring \<Rightarrow> jsstring option \<Rightarrow> (jsstring \<times> jsstring option) option" where
  "rmatch [] s c = Some (s, c)"
| "rmatch (Lit l # k) s c = (if starts l s then rmatch k (drop (length l) s) c else None)"
| "rmatch (LitI l # k) s c = (if startsI l s then rmatch k (drop (length l) s) c else None)"
| "rmatch (Cls p # k) [] c = None"
| "rmatch (Cls p # k) (x # xs) c = (if p x then rmatch k xs c else None)"
| "rmatch (Star p # k) [] c = rmatch k [] c"
| "rmatch (Star p # k) (x # xs) c =
     (if p x
      then (case rmatch (Star p # k) xs c of Some r \<Rightarrow> Some r | None \<Rightarrow> rmatch k (x # xs) c)
      else rmatch k (x # xs) c)"
| "rmatch (Lazy p # k) [] c = rmatch k [] c"
| "rmatch (Lazy p # k) (x # xs) c =
     (case rmatch k (x # xs) c of
        Some r \<Rightarrow> Some r
      | None \<Rightarrow> if p x then rmatch (Lazy p # k) xs c else None)"
| "rmatch (Opt r # k) s c =
     (case rmatch (r @ k) s c of Some x \<Rightarrow> Some x | None \<Rightarrow> rmatch k s c)"
| "rmatch (Grp r # k) s c = rmatch (r @ GEnd s # k) s c"
| "rmatch (GEnd s0 # k) s c = rmatch k s (Some (take (length s0 - length s) s0))"
| "rmatch (Alt a b # k) s c =
     (case rmatch (a @ k) s c of Some x \<Rightarrow> Some x | None \<Rightarrow> rmatch (b @ k) s c)"
  by pat_completeness auto
termination
  by (relation "measures [\<lambda>(rs, s, c). sum_list (map weight rs), \<lambda>(rs, s, c). length s]") auto

text \<open>One successful \<open>exec\<close>: the text skipped, the match, the capture, the text left.\<close>

record rmatched =
  skipped :: jsstring
  whole :: jsstring
  group1 :: "jsstring option"
  rest :: jsstring

text \<open>The leftmost match at or after the start of \<open>s\<close>.\<close>

fun search :: "rx list \<Rightarrow> jsstring \<Rightarrow> rmatched option" where
  "search rs [] =
     (case rmatch rs [] None of
        Some (r, c) \<Rightarrow> Some \<lparr>skipped = [], whole = [], group1 = c, rest = []\<rparr>
      | None \<Rightarrow> None)"
| "search rs (x # xs) =
     (case rmatch rs (x # xs) None of
        Some (r, c) \<Rightarrow>
          Some \<lparr>skipped = [], whole = take (length (x # xs) - length r) (x # xs),
                group1 = c, rest = r\<rparr>
      | None \<Rightarrow>
          (case search rs xs of
             Some mt \<Rightarrow> Some (mt\<lparr>skipped := x # skipped mt\<rparr>)
           | None \<Rightarrow> None))"

text \<open>\<open>re.test(s)\<close> for a pattern without the flag \<open>g\<close>.\<close>

definition test :: "rx list \<Rightarrow> jsstring \<Rightarrow> bool" where
  "test rs s = (search rs s \<noteq> None)"

text \<open>
  The loop \<open>while ((match = regex.exec(s)) !== null)\<close> of a pattern with the flag \<open>g\<close>: the
  matches from left to right, each search starting where the last match ended.  Every
  pattern of the program consumes at least one code unit; on an empty match JavaScript would
  not advance, and the list ends there.
\<close>

function execAll :: "rx list \<Rightarrow> jsstring \<Rightarrow> rmatched list" where
  "execAll rs s =
     (case search rs s of
        None \<Rightarrow> []
      | Some mt \<Rightarrow> if length (rest mt) < length s then mt # execAll rs (rest mt) else [])"
  by pat_completeness auto
termination
  by (relation "measure (\<lambda>(rs, s). length s)") auto

declare execAll.simps [simp del]

text \<open>\<open>s.replace(re, f)\<close> for a pattern with the flag \<open>g\<close> and a replacement function.\<close>

function replaceRx :: "rx list \<Rightarrow> (rmatched \<Rightarrow> jsstring) \<Rightarrow> jsstring \<Rightarrow> jsstring" where
  "replaceRx rs f s =
     (case search rs s of
        None \<Rightarrow> s
      | Some mt \<Rightarrow>
          if length (rest mt) < length s
          then skipped mt @ f mt @ replaceRx rs f (rest mt)
          else s)"
  by pat_completeness auto
termination
  by (relation "measure (\<lambda>(rs, f, s). length s)") auto

declare replaceRx.simps [simp del]

subsection \<open>Character classes\<close>

definition is_digit :: "codeunit \<Rightarrow> bool" where
  "is_digit c = (48 \<le> c \<and> c \<le> 57)"

definition is_hex :: "codeunit \<Rightarrow> bool" where
  "is_hex c = (is_digit c \<or> (97 \<le> c \<and> c \<le> 102) \<or> (65 \<le> c \<and> c \<le> 70))"

text \<open>\<open>[A-Za-z0-9_-]\<close>\<close>

definition is_token :: "codeunit \<Rightarrow> bool" where
  "is_token c = ((65 \<le> c \<and> c \<le> 90) \<or> (97 \<le> c \<and> c \<le> 122) \<or> is_digit c \<or> c = 95 \<or> c = 45)"

text \<open>\<open>.\<close> without the flag \<open>s\<close>: anything but a line terminator.\<close>

definition is_dot :: "codeunit \<Rightarrow> bool" where
  "is_dot c = (c \<notin> {10, 13, 8232, 8233})"

text \<open>\<open>[^...]\<close> for the ASCII characters listed.\<close>

definition none_of :: "string \<Rightarrow> codeunit \<Rightarrow> bool" where
  "none_of cs c = (c \<notin> set (js cs))"

definition one_of :: "string \<Rightarrow> codeunit \<Rightarrow> bool" where
  "one_of cs c = (c \<in> set (js cs))"

text \<open>\<open>p+\<close> and \<open>p{n,}\<close>\<close>

definition plus :: "(codeunit \<Rightarrow> bool) \<Rightarrow> rx list" where
  "plus p = [Cls p, Star p]"

definition at_least :: "nat \<Rightarrow> (codeunit \<Rightarrow> bool) \<Rightarrow> rx list" where
  "at_least n p = replicate n (Cls p) @ [Star p]"

section \<open>The normalizer\<close>

text \<open>\<open>parseInt(code, 16)\<close> on hexadecimal digits.\<close>

definition hexval :: "codeunit \<Rightarrow> codeunit" where
  "hexval c = (if is_digit c then c - 48 else if 97 \<le> c then c - 87 else c - 55)"

definition parseHex :: "jsstring \<Rightarrow> codeunit" where
  "parseHex ds = foldl (\<lambda>a d. 16 * a + hexval d) 0 ds"

text \<open>\<open>/\\u([0-9a-fA-F]{4})/g\<close>\<close>

definition unicodeEscape :: "rx list" where
  "unicodeEscape = [Lit [92, 117], Grp [Cls is_hex, Cls is_hex, Cls is_hex, Cls is_hex]]"

text \<open>\<open>(match, code) => String.fromCharCode(parseInt(code, 16))\<close>\<close>

definition fromCharCode :: "rmatched \<Rightarrow> jsstring" where
  "fromCharCode mt = (case group1 mt of Some code \<Rightarrow> [parseHex code] | None \<Rightarrow> whole mt)"

definition cleanHtml :: "jsstring \<Rightarrow> jsstring" where
  "cleanHtml html =
     replaceAll (js ''&gt;'') (js ''>'')
      (replaceAll (js ''&lt;'') (js ''<'')
       (replaceAll (js ''&amp;'') (js ''&'')
        (replaceAll (js ''&quot;'') [34]
         (replaceAll [92, 92] [92]
          (replaceAll [92, 34] [34]
           (replaceRx unicodeEscape fromCharCode html))))))"

section \<open>Decoding a match\<close>

text \<open>
  A JavaScript value, as far as the program tells values apart: \<open>typeof v === 'string'\<close> or
  not (\<open>undefined\<close>, \<open>null\<close>, numbers, objects).
\<close>

datatype jsval = Str jsstring | NonString

text \<open>
  \<open>decodeURIComponent\<close> of ECMAScript; \<open>None\<close> is the \<open>URIError\<close> it throws.  An escape is
  \<open>%\<close> and two hexadecimal digits; an octet below \<open>0x80\<close> is the code unit itself, a larger
  one starts a UTF-8 sequence of two to four escaped octets, which must encode a code
  point (not overlong, not a surrogate, at most \<open>0x10FFFF\<close>) and is replaced by its UTF-16
  code units.
\<close>

fun pctOctet :: "jsstring \<Rightarrow> (codeunit \<times> jsstring) option" where
  "pctOctet (p # a # b # s) =
     (if p = 37 \<and> is_hex a \<and> is_hex b then Some (16 * hexval a + hexval b, s) else None)"
| "pctOctet _ = None"

fun pctOctets :: "nat \<Rightarrow> jsstring \<Rightarrow> (codeunit list \<times> jsstring) option" where
  "pctOctets 0 s = Some ([], s)"
| "pctOctets (Suc n) s =
     (case pctOctet s of
        None \<Rightarrow> None
      | Some (b, s1) \<Rightarrow>
          (case pctOctets n s1 of None \<Rightarrow> None | Some (bs, s2) \<Rightarrow> Some (b # bs, s2)))"

definition utf8Length :: "codeunit \<Rightarrow> nat" where
  "utf8Length b = (if b < 224 then 2 else if b < 240 then 3 else 4)"

definition utf8Value :: "codeunit \<Rightarrow> codeunit list \<Rightarrow> codeunit option" where
  "utf8Value b cs =
     (let n = utf8Length b;
          lead = (if n = 2 then 192 else if n = 3 then 224 else 240);
          lo = (if n = 2 then 128 else if n = 3 then 2048 else 65536);
          v = foldl (\<lambda>a c. 64 * a + (c - 128)) (b - lead) cs
      in if (\<forall>c \<in> set cs. 128 \<le> c \<and> c < 192) \<and> lo \<le> v \<and> v \<le> 1114111
            \<and> \<not> (55296 \<le> v \<and> v \<le> 57343)
         then Some v else None)"

definition utf16 :: "codeunit \<Rightarrow> jsstring" where
  "utf16 v = (if v < 65536 then [v]
              else [55296 + (v - 65536) div 1024, 56320 + (v - 65536) mod 1024])"

lemma pctOctet_shorter: "pctOctet s = Some (b, s1) \<Longrightarrow> length s1 < length s"
  by (induction s rule: pctOctet.induct) (auto split: if_splits)

lemma pctOctets_shorter: "pctOctets n s = Some (bs, s2) \<Longrightarrow> length s2 \<le> length s"
proof (induction n arbitrary: s bs s2)
  case 0
  then show ?case by simp
next
  case (Suc n)
  then show ?case
    by (fastforce split: option.splits dest: pctOctet_shorter)
qed

function decodeURIComponent :: "jsstring \<Rightarrow> jsstring option" where
  "decodeURIComponent [] = Some []"
| "decodeURIComponent (c # s) =
     (if c \<noteq> 37 then map_option ((#) c) (decodeURIComponent s)
      else
        (case pctOctet (c # s) of
           None \<Rightarrow> None
         | Some (b, s1) \<Rightarrow>
             if b < 128 then map_option ((#) b) (decodeURIComponent s1)
             else if b < 192 \<or> 248 \<le> b then None
             else
               (case pctOctets (utf8Length b - 1) s1 of
                  None \<Rightarrow> None
                | Some (cs, s2) \<Rightarrow>
                    (case utf8Value b cs of
                       None \<Rightarrow> None
                     | Some v \<Rightarrow> map_option ((@) (utf16 v)) (decodeURIComponent s2)))))"
  by pat_completeness auto
termination
proof (relation "measure length")
  show "wf (measure length)" by simp
next
  fix c s
  show "(s, c # s) \<in> measure length" by simp
next
  fix c s x2 x y
  assume "pctOctet (c # s) = Some x2" "(x, y) = x2"
  then have "length y < length (c # s)"
    using pctOctet_shorter [of "c # s" x y] by simp
  then show "(y, c # s) \<in> measure length" by simp
next
  fix c s x2 x y x2a xa ya x2b
  assume "pctOctet (c # s) = Some x2" "(x, y) = x2"
    "pctOctets (utf8Length x - 1) y = Some x2a" "(xa, ya) = x2a"
  then have "length y < length (c # s)" "length ya \<le> length y"
    using pctOctet_shorter [of "c # s" x y] pctOctets_shorter [of "utf8Length x - 1" y xa ya]
    by simp_all
  then show "(ya, c # s) \<in> measure length" by simp
qed

text \<open>\<open>url.replace(/^["']|["']$/g, '')\<close>: a quote at the start goes, then a quote at the end.\<close>

definition is_quote :: "codeunit \<Rightarrow> bool" where
  "is_quote c = (c = 34 \<or> c = 39)"

definition stripQuotes :: "jsstring \<Rightarrow> jsstring" where
  "stripQuotes s =
     (let s1 = (case s of [] \<Rightarrow> [] | x # xs \<Rightarrow> if is_quote x then xs else s)
      in if s1 \<noteq> [] \<and> is_quote (last s1) then butlast s1 else s1)"

text \<open>
  \<open>url.replace(/^[^h]*<BaseURL>/gi, '')\<close>: the pattern is anchored, so it matches at most
  once, at the start; under the flag \<open>i\<close> the class excludes \<open>h\<close> and \<open>H\<close>.
\<close>

definition stripToBaseURL :: "jsstring \<Rightarrow> jsstring" where
  "stripToBaseURL s =
     (case rmatch [Star (\<lambda>c. c \<noteq> 104 \<and> c \<noteq> 72), LitI (js ''<BaseURL>'')] s None of
        Some (r, c) \<Rightarrow> r
      | None \<Rightarrow> s)"

definition not_gt :: "codeunit \<Rightarrow> bool" where
  "not_gt c = (c \<noteq> 62)"

definition removed :: "rmatched \<Rightarrow> jsstring" where
  "removed mt = []"

text \<open>The clean-up of \<open>decodeUrl\<close> before the percent-decoding.\<close>

definition stripTags :: "jsstring \<Rightarrow> jsstring" where
  "stripTags url =
     replaceRx [Lit [60], Cls not_gt, Star not_gt, Lit [62]] removed
      (replaceRx [LitI (js ''><BaseURL>'')] removed
       (replaceRx [LitI (js ''</BaseURL>''), Star is_dot] removed
        (stripToBaseURL (stripQuotes url))))"

definition basicCleanup :: "jsstring \<Rightarrow> jsstring" where
  "basicCleanup url = trim (stripQuotes (replaceAll [92] [] url))"

definition decodeUrl :: "jsval \<Rightarrow> jsstring" where
  "decodeUrl v =
     (case v of
        NonString \<Rightarrow> []
      | Str url \<Rightarrow>
          if url = [] then []
          else
            (case decodeURIComponent (replaceAll [92] [] (stripTags url)) of
               Some d \<Rightarrow>
                 trim (replaceAll [92, 47] [47]
                        (replaceAll ([92] @ js ''u002F'') [47] d))
             | None \<Rightarrow> basicCleanup (stripTags url)))"

section \<open>The runtime\<close>

text \<open>
  What the program takes from its platform and libraries, and this development takes as
  given: whether \<open>new URL(url)\<close> returns or throws, the values \<open>Math.random()\<close> returns (the
  \<open>n\<close>-th call of a run returns \<open>random n\<close>), what Cheerio finds in a document (the \<open>src\<close>
  attributes of the \<open>video\<close> and \<open>video source\<close> elements and the contents of the \<open>script\<close>
  elements, in document order; an absent attribute is not a string), and \<open>JSON.parse\<close>.
\<close>

datatype json =
    JString jsstring
  | JObject "(jsstring \<times> json) list"
  | JNull
  | JOther

text \<open>
  \<open>JObject\<close> is an object or an array with its properties in the order \<open>for ... in\<close> visits
  them; \<open>JOther\<close> is a number or a boolean.
\<close>

record runtime =
  urlParses :: "jsstring \<Rightarrow> bool"
  random :: "nat \<Rightarrow> real"
  videoSrc :: "jsstring \<Rightarrow> jsval list"
  sourceSrc :: "jsstring \<Rightarrow> jsval list"
  scriptHtml :: "jsstring \<Rightarrow> jsval list"
  jsonParse :: "jsstring \<Rightarrow> json option"

section \<open>The validator\<close>

definition hasFacebookVideoIndicator :: "jsstring \<Rightarrow> bool" where
  "hasFacebookVideoIndicator url =
     ((str_includes url (js ''scontent'') \<and> str_includes url (js ''.fna.fbcdn.net'')) \<and>
      (str_includes url (js ''/o1/v/'') \<or> str_includes url (js ''/o2/v/'')) \<and>
      str_includes url (js ''.mp4?'') \<and>
      (str_includes url (js ''_nc_cat='') \<or> str_includes url (js ''&_nc_cat='')) \<and>
      test (at_least 40 is_token @ [Lit (js ''.mp4'')]) url)"

definition isDashOrSegment :: "jsstring \<Rightarrow> bool" where
  "isDashOrSegment url =
     (str_includes url (js ''.mpd'') \<or>
      str_includes url (js ''segment'') \<or>
      str_includes url (js ''manifest'') \<or>
      str_includes url (js ''init.mp4'') \<or>
      str_includes url (js ''dash''))"

definition startsHttp :: "jsstring \<Rightarrow> bool" where
  "startsHttp url = (starts (js ''http://'') url \<or> starts (js ''https://'') url)"

definition isValidVideoUrl :: "runtime \<Rightarrow> jsval \<Rightarrow> bool" where
  "isValidVideoUrl rt v =
     (case v of
        NonString \<Rightarrow> False
      | Str url \<Rightarrow>
          if url = [] then False
          else if length url < 200 then False
          else if \<not> startsHttp url then False
          else if \<not> urlParses rt url then False
          else if \<not> str_includes url (js ''.mp4'') then False
          else if isDashOrSegment url then False
          else hasFacebookVideoIndicator url)"

section \<open>The classifier\<close>

record contentType =
  ct_hasVideo :: bool
  ct_hasAudio :: bool
  ct_description :: jsstring

record video =
  url :: jsstring
  quality :: jsstring
  vtype :: jsstring
  vsize :: jsstring
  contentType :: contentType
  hasVideo :: bool
  hasAudio :: bool
  resolution :: jsstring

text \<open>The field \<open>thumbnail\<close> of the source is always \<open>null\<close> and is left out.\<close>

definition alts :: "string list \<Rightarrow> rx list" where
  "alts ws = [foldr (\<lambda>w r. Alt [LitI (js w)] [r]) (butlast ws) (LitI (js (last ws)))]"

definition qualityPatterns :: "(rx list \<times> jsstring) list" where
  "qualityPatterns =
     [(alts [''hd'', ''720p'', ''1080p'', ''high''], js ''HD''),
      (alts [''sd'', ''480p'', ''medium''], js ''SD''),
      (alts [''low'', ''240p'', ''360p''], js ''Low''),
      (alts [''4k'', ''2160p'', ''ultra''], js ''4K''),
      (alts [''2k'', ''1440p''], js ''2K'')]"

definition detectQuality :: "jsstring \<Rightarrow> jsstring" where
  "detectQuality u =
     (case find (\<lambda>(pattern, q). test pattern u) qualityPatterns of
        Some (pattern, q) \<Rightarrow> q
      | None \<Rightarrow>
          if str_includes u (js ''hd'') \<or> str_includes u (js ''720'') \<or> str_includes u (js ''1080'')
          then js ''HD''
          else if str_includes u (js ''sd'') \<or> str_includes u (js ''480'') then js ''SD''
          else js ''Unknown Quality'')"

definition detectType :: "jsstring \<Rightarrow> jsstring" where
  "detectType u =
     (if str_includes u (js ''.mp4'') then js ''MP4''
      else if str_includes u (js ''.m4v'') then js ''M4V''
      else if str_includes u (js ''.mov'') then js ''MOV''
      else if str_includes u (js ''dash'') then js ''DASH''
      else js ''MP4'')"

definition estimateSize :: "jsstring \<Rightarrow> jsstring" where
  "estimateSize q =
     (case map_of [(js ''4K'', js ''~500MB''), (js ''2K'', js ''~200MB''), (js ''HD'', js ''~100MB''),
                   (js ''SD'', js ''~50MB''), (js ''Low'', js ''~20MB'')] q of
        Some sz \<Rightarrow> sz
      | None \<Rightarrow> js ''Unknown'')"

definition describe :: "bool \<Rightarrow> bool \<Rightarrow> jsstring" where
  "describe v a =
     (if v \<and> a then js ''Video + Audio''
      else if v then js ''Video Only''
      else if a then js ''Audio Only''
      else js ''Unknown'')"

text \<open>
  \<open>detectContentType\<close> calls \<open>Math.random()\<close> for a URL with the format code \<open>/m69/\<close>: the
  number of calls made so far goes in and comes out.
\<close>

definition detectContentType :: "runtime \<Rightarrow> nat \<Rightarrow> jsstring \<Rightarrow> contentType \<times> nat" where
  "detectContentType rt n u =
     (if (str_includes u (js ''/m78/'') \<or> str_includes u (js ''/m69/'') \<or>
          str_includes u (js ''/m366/'') \<or> str_includes u (js ''/m412/''))
         \<and> str_includes u (js ''/m69/'')
      then (\<lparr>ct_hasVideo = True, ct_hasAudio = (random rt n > 3 / 10),
             ct_description = describe True (random rt n > 3 / 10)\<rparr>, Suc n)
      else (\<lparr>ct_hasVideo = True, ct_hasAudio = True, ct_description = describe True True\<rparr>, n))"

definition detectResolution :: "jsstring \<Rightarrow> jsstring" where
  "detectResolution u =
     (if str_includes u (js ''1080'') \<or> str_includes u (js ''hd'') then js ''1080p''
      else if str_includes u (js ''720'') then js ''720p''
      else if str_includes u (js ''480'') then js ''480p''
      else if str_includes u (js ''360'') then js ''360p''
      else if str_includes u (js ''/m78/'') then js ''720p+''
      else if str_includes u (js ''/m412/'') then js ''1080p+''
      else if str_includes u (js ''/m366/'') then js ''480p''
      else if str_includes u (js ''/m69/'') then js ''360p''
      else js ''Auto'')"

definition createVideoObject :: "runtime \<Rightarrow> nat \<Rightarrow> jsstring \<Rightarrow> video \<times> nat" where
  "createVideoObject rt n u =
     (case detectContentType rt n u of
        (ct, n') \<Rightarrow>
          (\<lparr>url = u, quality = detectQuality u, vtype = detectType u,
            vsize = estimateSize (detectQuality u), contentType = ct,
            hasVideo = ct_hasVideo ct, hasAudio = ct_hasAudio ct,
            resolution = detectResolution u\<rparr>, n'))"

section \<open>The candidate scanner\<close>

text \<open>The character classes of the rule table.\<close>

definition not_dq :: "codeunit \<Rightarrow> bool" where
  "not_dq c = (c \<noteq> 34)"

definition not_sq :: "codeunit \<Rightarrow> bool" where
  "not_sq c = (c \<noteq> 39)"

definition not_quote :: "codeunit \<Rightarrow> bool" where
  "not_quote c = (c \<noteq> 39 \<and> c \<noteq> 34)"

definition not_quote_space :: "codeunit \<Rightarrow> bool" where
  "not_quote_space c = (c \<noteq> 34 \<and> c \<noteq> 39 \<and> \<not> is_space c)"

definition not_brace :: "codeunit \<Rightarrow> bool" where
  "not_brace c = (c \<noteq> 125)"

definition url_char :: "codeunit \<Rightarrow> bool" where
  "url_char c = (\<not> is_space c \<and> c \<noteq> 34 \<and> c \<noteq> 39 \<and> c \<noteq> 60 \<and> c \<noteq> 62)"

text \<open>\<open>/"key":"([^"]+)"/g\<close>\<close>

definition field :: "string \<Rightarrow> rx list" where
  "field key = [Lit ([34] @ js key @ [34, 58, 34]), Grp (plus not_dq), Lit [34]]"

text \<open>\<open>/https:\/\/[^"'\s]*mid[^"'\s]*\.mp4(?:\?[^"'\s]*)?/g\<close>\<close>

definition mp4With :: "string \<Rightarrow> rx list" where
  "mp4With mid =
     [Lit (js ''https://''), Star not_quote_space, Lit (js mid), Star not_quote_space,
      Lit (js ''.mp4''), Opt [Lit (js ''?''), Star not_quote_space]]"

text \<open>\<open>/"key":\s*"([^"]*\.mp4[^"]*)"/g\<close>\<close>

definition mp4Field :: "string \<Rightarrow> rx list" where
  "mp4Field key =
     [Lit ([34] @ js key @ [34, 58]), Star is_space, Lit [34],
      Grp [Star not_dq, Lit (js ''.mp4''), Star not_dq], Lit [34]]"

text \<open>\<open>/attr=['"]([^'"]*\.mp4[^'"]*)['"]/g\<close>\<close>

definition mp4Attr :: "string \<Rightarrow> rx list" where
  "mp4Attr attr =
     [Lit (js attr @ [61]), Cls is_quote,
      Grp [Star not_quote, Lit (js ''.mp4''), Star not_quote], Cls is_quote]"

text \<open>The rule table, in the order of the source: rule \<open>i\<close> is \<open>videoPatterns ! i\<close>.\<close>

definition videoPatterns :: "rx list list" where
  "videoPatterns =
     [field ''hd_src'',
      field ''sd_src'',
      field ''hd_src_no_ratelimit'',
      field ''sd_src_no_ratelimit'',
      field ''playable_url'',
      field ''playable_url_quality_hd'',
      field ''browser_native_hd_url'',
      field ''browser_native_sd_url'',
      field ''playback_url'',
      field ''video_url'',
      field ''videoUrl'',
      field ''videoSrc'',
      field ''playbackUrl'',
      [Lit ([34] @ js ''progressive'' @ [34] @ js '':[''), Lazy is_dot,
       Lit ([34] @ js ''url'' @ [34, 58, 34]), Grp (plus not_dq), Lit [34], Lazy is_dot,
       Lit (js '']'')],
      [Lit ([34] @ js ''url'' @ [34, 58, 34]), Grp (plus not_dq), Lit [34], Star not_brace,
       Lit ([34] @ js ''quality'' @ [34, 58, 34]), Star not_dq, Lit [34]],
      [Lit (js ''https://''), Star not_quote_space, Lit (js ''.mp4''),
       Opt [Lit (js ''?''), Star not_quote_space]],
      mp4With ''video'',
      mp4With ''scontent'',
      mp4With ''fbcdn'',
      mp4With ''cdninstagram'',
      [Lit (js ''https://video''), Star not_quote_space, Lit (js ''.facebook.com''),
       Star not_quote_space, Lit (js ''.mp4''), Opt [Lit (js ''?''), Star not_quote_space]],
      mp4With ''.fbcdn.net'',
      mp4Field ''src'',
      mp4Field ''source'',
      mp4Field ''video'',
      mp4Attr ''data-src'',
      mp4Attr ''src'',
      field ''dash_manifest'',
      field ''download_url'',
      [Lit (js ''blob:http''), Opt [Lit (js ''s'')], Lit (js ''://''), Cls not_quote_space,
       Star not_quote_space],
      [Lit ([92] @ js ''u002F'' @ [92] @ js ''u002F''), Star not_dq, Lit (js ''.mp4''),
       Star not_dq],
      [Lit [34], Star not_dq, Lit [92, 47, 92, 47], Star not_dq, Lit (js ''.mp4''),
       Star not_dq, Lit [34]]]"

text \<open>
  The state of one extraction: the set \<open>foundUrls\<close> (kept in insertion order), the array
  \<open>videos\<close>, and the number of calls of \<open>Math.random()\<close> so far.
\<close>

record scan =
  foundUrls :: "jsstring list"
  videos :: "video list"
  draws :: nat

text \<open>\<open>foundUrls.add(url); videos.push(this.createVideoObject(url))\<close>\<close>

definition addVideo :: "runtime \<Rightarrow> jsstring \<Rightarrow> scan \<Rightarrow> scan" where
  "addVideo rt u st =
     (case createVideoObject rt (draws st) u of
        (v, n) \<Rightarrow> \<lparr>foundUrls = foundUrls st @ [u], videos = videos st @ [v], draws = n\<rparr>)"

text \<open>\<open>match[1]\<close> when it is truthy, else \<open>match[0]\<close>.\<close>

definition matchText :: "rmatched \<Rightarrow> jsstring" where
  "matchText mt =
     (case group1 mt of
        Some g \<Rightarrow> if g \<noteq> [] then g else whole mt
      | None \<Rightarrow> whole mt)"

definition isManifestFragment :: "jsstring \<Rightarrow> bool" where
  "isManifestFragment u =
     (str_includes u [60] \<or> str_includes u [62] \<or> str_includes u (js ''BaseURL'') \<or>
      str_includes u (js ''SegmentBase'') \<or> str_includes u (js ''indexRange''))"

text \<open>The body of the loop over the matches of rule \<open>index\<close>.\<close>

definition scanMatch :: "runtime \<Rightarrow> nat \<Rightarrow> scan \<Rightarrow> rmatched \<Rightarrow> scan" where
  "scanMatch rt index st mt =
     (let u = decodeUrl (Str (matchText mt)) in
      if u = [] \<or> length u < 20 then st
      else if isManifestFragment u then st
      else if \<not> startsHttp u then st
      else if index = 31 \<and> str_includes u (js ''scontent'') \<and> str_includes u (js ''.mp4'')
      then (if u \<notin> set (foundUrls st) then addVideo rt u st else st)
      else if isValidVideoUrl rt (Str u) \<and> u \<notin> set (foundUrls st) then addVideo rt u st
      else st)"

definition scanPattern :: "runtime \<Rightarrow> jsstring \<Rightarrow> scan \<Rightarrow> nat \<times> rx list \<Rightarrow> scan" where
  "scanPattern rt html st ip = foldl (scanMatch rt (fst ip)) st (execAll (snd ip) html)"

definition scanPatterns :: "runtime \<Rightarrow> jsstring \<Rightarrow> scan \<Rightarrow> scan" where
  "scanPatterns rt html st = foldl (scanPattern rt html) st (enumerate 0 videoPatterns)"

subsection \<open>The fallback scan\<close>

text \<open>\<open>/https?:\/\/[^\s"'<>]*mid[^\s"'<>]*\.mp4[^\s"'<>]*/gi\<close>\<close>

definition looseWith :: "string \<Rightarrow> rx list" where
  "looseWith mid =
     [LitI (js ''http''), Opt [LitI (js ''s'')], Lit (js ''://''), Star url_char, LitI (js mid),
      Star url_char, LitI (js ''.mp4''), Star url_char]"

definition fallbackPatterns :: "rx list list" where
  "fallbackPatterns =
     [[LitI (js ''http''), Opt [LitI (js ''s'')], Lit (js ''://''), Star url_char,
       LitI (js ''.mp4''), Star url_char],
      looseWith ''video'',
      looseWith ''scontent'',
      looseWith ''fbcdn'',
      [Lit [34],
       Grp [LitI (js ''http''), Opt [LitI (js ''s'')], Lit (js ''://''), Star not_dq,
            LitI (js ''.mp4''), Star not_dq],
       Lit [34]],
      [Lit [39],
       Grp [LitI (js ''http''), Opt [LitI (js ''s'')], Lit (js ''://''), Star not_sq,
            LitI (js ''.mp4''), Star not_sq],
       Lit [39]]]"

definition fallbackMatch :: "runtime \<Rightarrow> scan \<Rightarrow> rmatched \<Rightarrow> scan" where
  "fallbackMatch rt st mt =
     (let u = decodeUrl (Str (matchText mt)) in
      if isValidVideoUrl rt (Str u) \<and> u \<notin> set (foundUrls st) then addVideo rt u st else st)"

definition fallbackVideoSearch :: "runtime \<Rightarrow> jsstring \<Rightarrow> scan \<Rightarrow> scan" where
  "fallbackVideoSearch rt html st =
     foldl (\<lambda>st pattern. foldl (fallbackMatch rt) st (execAll pattern html)) st fallbackPatterns"

subsection \<open>The structured-data walkers\<close>

text \<open>An array of videos under construction and the number of random draws so far.\<close>

type_synonym found = "video list \<times> nat"

text \<open>\<open>if (this.isValidVideoUrl(u)) videos.push(this.createVideoObject(u))\<close>\<close>

definition pushIfValid :: "runtime \<Rightarrow> found \<Rightarrow> jsval \<Rightarrow> found" where
  "pushIfValid rt acc v =
     (case v of
        NonString \<Rightarrow> acc
      | Str u \<Rightarrow>
          if isValidVideoUrl rt (Str u)
          then (case createVideoObject rt (snd acc) u of (vd, n) \<Rightarrow> (fst acc @ [vd], n))
          else acc)"

text \<open>\<open>match[1]\<close> as a value: \<open>undefined\<close> for a pattern without a group.\<close>

definition group1Val :: "rmatched \<Rightarrow> jsval" where
  "group1Val mt = (case group1 mt of Some g \<Rightarrow> Str g | None \<Rightarrow> NonString)"

definition scanScript :: "runtime \<Rightarrow> found \<Rightarrow> jsval \<Rightarrow> found" where
  "scanScript rt acc content =
     (case content of
        NonString \<Rightarrow> acc
      | Str c \<Rightarrow>
          if c \<noteq> [] \<and> str_includes c (js ''video'')
          then foldl (\<lambda>acc pattern.
                 foldl (\<lambda>acc mt. pushIfValid rt acc (Str (decodeUrl (group1Val mt))))
                   acc (execAll pattern c))
               acc videoPatterns
          else acc)"

definition extractWithCheerio :: "runtime \<Rightarrow> jsstring \<Rightarrow> nat \<Rightarrow> found" where
  "extractWithCheerio rt html n =
     foldl (scanScript rt)
       (foldl (pushIfValid rt) (foldl (pushIfValid rt) ([], n) (videoSrc rt html))
          (sourceSrc rt html))
       (scriptHtml rt html)"

fun findVideoUrlsInObject :: "runtime \<Rightarrow> json \<Rightarrow> jsstring list"
  and findVideoUrlsInProps :: "runtime \<Rightarrow> (jsstring \<times> json) list \<Rightarrow> jsstring list" where
  "findVideoUrlsInObject rt (JObject kvs) = findVideoUrlsInProps rt kvs"
| "findVideoUrlsInObject rt (JString s) = []"
| "findVideoUrlsInObject rt JNull = []"
| "findVideoUrlsInObject rt JOther = []"
| "findVideoUrlsInProps rt [] = []"
| "findVideoUrlsInProps rt ((key, JString s) # kvs) =
     (if isValidVideoUrl rt (Str s) then [s] else []) @ findVideoUrlsInProps rt kvs"
| "findVideoUrlsInProps rt ((key, v) # kvs) =
     findVideoUrlsInObject rt v @ findVideoUrlsInProps rt kvs"

text \<open>\<open>/<script[^>]*type=["']application\/ld\+json["'][^>]*>(.*?)<\/script>/gis\<close>\<close>

definition jsonLdRegex :: "rx list" where
  "jsonLdRegex =
     [LitI (js ''<script''), Star not_gt, LitI (js ''type=''), Cls is_quote,
      LitI (js ''application/ld+json''), Cls is_quote, Star not_gt, Lit [62],
      Grp [Lazy (\<lambda>c. True)], LitI (js ''</script>'')]"

definition scanJsonLd :: "runtime \<Rightarrow> found \<Rightarrow> rmatched \<Rightarrow> found" where
  "scanJsonLd rt acc mt =
     (case jsonParse rt (case group1 mt of Some g \<Rightarrow> g | None \<Rightarrow> []) of
        None \<Rightarrow> acc
      | Some jsonData \<Rightarrow>
          foldl (\<lambda>acc u. pushIfValid rt acc (Str u)) acc (findVideoUrlsInObject rt jsonData))"

definition extractFromStructuredData :: "runtime \<Rightarrow> jsstring \<Rightarrow> nat \<Rightarrow> found" where
  "extractFromStructuredData rt html n = foldl (scanJsonLd rt) ([], n) (execAll jsonLdRegex html)"

section \<open>The extraction\<close>

text \<open>\<open>if (!foundUrls.has(video.url)) { foundUrls.add(video.url); videos.push(video) }\<close>\<close>

definition mergeVideo :: "scan \<Rightarrow> video \<Rightarrow> scan" where
  "mergeVideo st v =
     (if url v \<notin> set (foundUrls st)
      then st\<lparr>foundUrls := foundUrls st @ [url v], videos := videos st @ [v]\<rparr>
      else st)"

definition mergeFound :: "scan \<Rightarrow> found \<Rightarrow> scan" where
  "mergeFound st acc = foldl mergeVideo (st\<lparr>draws := snd acc\<rparr>) (fst acc)"

definition qualityOrder :: "jsstring \<Rightarrow> nat option" where
  "qualityOrder =
     map_of [(js ''4K'', 0), (js ''2K'', 1), (js ''HD'', 2), (js ''SD'', 3), (js ''Low'', 4),
             (js ''Unknown Quality'', 5)]"

text \<open>\<open>qualityOrder[v.quality] || 5\<close>: an absent entry and the entry \<open>0\<close> both give \<open>5\<close>.\<close>

definition orderOf :: "video \<Rightarrow> nat" where
  "orderOf v = (case qualityOrder (quality v) of None \<Rightarrow> 5 | Some n \<Rightarrow> if n = 0 then 5 else n)"

text \<open>
  \<open>Array.prototype.sort\<close> is stable, and the comparator \<open>aOrder - bOrder\<close> orders by a key:
  the result is the stable sort by that key.
\<close>

definition sortVideosByQuality :: "video list \<Rightarrow> video list" where
  "sortVideosByQuality vs = sort_key orderOf vs"

text \<open>The videos in the order of their discovery, before the final sort.\<close>

definition discoverVideos :: "runtime \<Rightarrow> jsstring \<Rightarrow> scan" where
  "discoverVideos rt html =
     (let clean = cleanHtml html;
          st1 = scanPatterns rt clean \<lparr>foundUrls = [], videos = [], draws = 0\<rparr>;
          st2 = (if videos st1 = [] then fallbackVideoSearch rt clean st1 else st1);
          st3 = mergeFound st2 (extractWithCheerio rt clean (draws st2))
      in mergeFound st3 (extractFromStructuredData rt clean (draws st3)))"

definition extractVideos :: "runtime \<Rightarrow> jsstring \<Rightarrow> video list" where
  "extractVideos rt html = sortVideosByQuality (videos (discoverVideos rt html))"

section \<open>Grouping, ranking and capping\<close>

text \<open>\<open>/\/m(412|540|720|1080)/\<close>\<close>

definition highQualityVideoAudio :: "rx list" where
  "highQualityVideoAudio =
     [Lit (js ''/m''),
      Alt [Lit (js ''412'')] [Alt [Lit (js ''540'')] [Alt [Lit (js ''720'')] [Lit (js ''1080'')]]]]"

definition getQualityScore :: "jsstring \<Rightarrow> nat" where
  "getQualityScore u =
     (if test highQualityVideoAudio u then 100
      else if test [Lit (js ''/m366'')] u then 80
      else if test [Lit (js ''/m78'')] u then 60
      else if test [Lit (js ''/m69'')] u then 20
      else if str_includes u (js ''1080'') \<or> str_includes u (js ''hd'') then 90
      else if str_includes u (js ''720'') then 85
      else if str_includes u (js ''480'') then 70
      else if str_includes u (js ''360'') then 50
      else 40)"

record analysis =
  an_hasVideo :: bool
  an_hasAudio :: bool
  an_quality :: jsstring
  an_description :: jsstring

definition analyzeContentType :: "jsstring \<Rightarrow> analysis" where
  "analyzeContentType u =
     (if test highQualityVideoAudio u
      then \<lparr>an_hasVideo = True, an_hasAudio = True, an_quality = js ''high'',
            an_description = js ''High Quality Video + Audio''\<rparr>
      else if test [Lit (js ''/m366'')] u
      then \<lparr>an_hasVideo = True, an_hasAudio = True, an_quality = js ''standard'',
            an_description = js ''Standard Quality Video + Audio''\<rparr>
      else if test [Lit (js ''/m78'')] u
      then \<lparr>an_hasVideo = True, an_hasAudio = True, an_quality = js ''audio-optimized'',
            an_description = js ''Audio Optimized Video''\<rparr>
      else if test [Lit (js ''/m69'')] u
      then \<lparr>an_hasVideo = True, an_hasAudio = False, an_quality = js ''low'',
            an_description = js ''Video Only (Low Quality)''\<rparr>
      else \<lparr>an_hasVideo = True, an_hasAudio = True, an_quality = js ''unknown'',
            an_description = js ''Video + Audio''\<rparr>)"

text \<open>
  \<open>videos.sort((a, b) => score(b.url) - score(a.url))\<close>: the stable sort by descending
  score.
\<close>

definition sortByScore :: "video list \<Rightarrow> video list" where
  "sortByScore vs = sort_key (\<lambda>v. - int (getQualityScore (url v))) vs"

definition limitResults :: "video list \<Rightarrow> nat \<Rightarrow> video list" where
  "limitResults vs maxVideos =
     (if length vs \<le> maxVideos then vs else take maxVideos (sortByScore vs))"

text \<open>\<open>url.split('/').pop().split('?')[0].split('.')[0]\<close>\<close>

definition filename :: "jsstring \<Rightarrow> jsstring" where
  "filename u =
     takeWhile (\<lambda>c. c \<noteq> 46) (takeWhile (\<lambda>c. c \<noteq> 63) (rev (takeWhile (\<lambda>c. c \<noteq> 47) (rev u))))"

definition extractBaseVideoId :: "jsstring \<Rightarrow> jsstring" where
  "extractBaseVideoId u =
     (case search [Lit (js ''/''), Grp (at_least 40 is_token), Lit (js ''.'')] u of
        Some hashMatch \<Rightarrow> take 30 (matchText hashMatch)
      | None \<Rightarrow>
          (case search [Lit (js ''/f2/''), Grp (plus is_token)] u of
             Some pathMatch \<Rightarrow> matchText pathMatch
           | None \<Rightarrow> take 20 (filename u)))"

definition isHighQualityVideo :: "jsstring \<Rightarrow> bool" where
  "isHighQualityVideo u =
     (str_includes u (js ''/m412/'') \<or> str_includes u (js ''/m540/'') \<or>
      str_includes u (js ''/m366/''))"

definition isMainVideoGroup :: "video list \<Rightarrow> bool" where
  "isMainVideoGroup grp =
     (if length grp < 1 then False else list_ex (\<lambda>v. isHighQualityVideo (url v)) grp)"

definition isComplete :: "video \<Rightarrow> bool" where
  "isComplete v =
     (let ct = analyzeContentType (url v)
      in an_hasVideo ct \<and> an_hasAudio ct \<and> an_quality ct \<noteq> js ''low'')"

definition selectBestVideoFromGroup :: "video list \<Rightarrow> video option" where
  "selectBestVideoFromGroup grp =
     (case sortByScore (filter isComplete grp) of
        [] \<Rightarrow> None
      | best # others \<Rightarrow> Some best)"

text \<open>
  The \<open>Map\<close> from base id to group, in insertion order: \<open>videoMap.get(baseId).push(video)\<close>
  for a key already there, \<open>videoMap.set(baseId, [video])\<close> at the end otherwise.
\<close>

fun pushToGroup :: "jsstring \<Rightarrow> video \<Rightarrow> (jsstring \<times> video list) list \<Rightarrow> (jsstring \<times> video list) list" where
  "pushToGroup k v [] = [(k, [v])]"
| "pushToGroup k v ((k', g) # m) =
     (if k = k' then (k', g @ [v]) # m else (k', g) # pushToGroup k v m)"

definition videoMap :: "video list \<Rightarrow> (jsstring \<times> video list) list" where
  "videoMap vs = foldl (\<lambda>m v. pushToGroup (extractBaseVideoId (url v)) v m) [] vs"

definition identifyMainVideos :: "video list \<Rightarrow> video list" where
  "identifyMainVideos vs =
     concat (map (\<lambda>(baseId, grp).
                    if isMainVideoGroup grp
                    then (case selectBestVideoFromGroup grp of
                            Some bestVideo \<Rightarrow> [bestVideo]
                          | None \<Rightarrow> [])
                    else [])
             (videoMap vs))"

section \<open>What the searches find\<close>

lemma starts_iff: "starts p s \<longleftrightarrow> (\<exists>r. s = p @ r)"
  by (induction p s rule: starts.induct) auto

lemma str_includes_iff: "str_includes s p \<longleftrightarrow> (\<exists>a b. s = a @ p @ b)"
proof (induction s)
  case Nil
  then show ?case by simp
next
  case (Cons x xs)
  show ?case
  proof
    assume "str_includes (x # xs) p"
    then consider "starts p (x # xs)" | "str_includes xs p" by auto
    then show "\<exists>a b. x # xs = a @ p @ b"
    proof cases
      case 1
      then obtain r where "x # xs = p @ r" using starts_iff by blast
      then have "x # xs = [] @ p @ r" by simp
      then show ?thesis by blast
    next
      case 2
      then obtain a b where "xs = a @ p @ b" using Cons.IH by blast
      then have "x # xs = (x # a) @ p @ b" by simp
      then show ?thesis by blast
    qed
  next
    assume "\<exists>a b. x # xs = a @ p @ b"
    then obtain a b where ab: "x # xs = a @ p @ b" by blast
    show "str_includes (x # xs) p"
    proof (cases a)
      case Nil
      with ab have "starts p (x # xs)" using starts_iff by auto
      then show ?thesis by simp
    next
      case (Cons y ys)
      with ab have "xs = ys @ p @ b" by simp
      then have "str_includes xs p" using Cons.IH by blast
      then show ?thesis by simp
    qed
  qed
qed

lemma rmatch_Lit: "rmatch [Lit l] s c = (if starts l s then Some (drop (length l) s, c) else None)"
  by simp

lemma rmatch_replicate_Cls:
  "rmatch (replicate n (Cls p) @ k) s c =
     (if n \<le> length s \<and> list_all p (take n s) then rmatch k (drop n s) c else None)"
proof (induction n arbitrary: s)
  case 0
  then show ?case by simp
next
  case (Suc n)
  then show ?case by (cases s) auto
qed

lemma rmatch_Star_Lit:
  "rmatch [Star p, Lit l] s c \<noteq> None \<longleftrightarrow> (\<exists>i \<le> length (takeWhile p s). starts l (drop i s))"
proof (induction s)
  case Nil
  then show ?case by simp
next
  case (Cons x xs)
  show ?case
  proof (cases "p x")
    case False
    then show ?thesis by simp
  next
    case True
    have "rmatch [Star p, Lit l] (x # xs) c \<noteq> None \<longleftrightarrow>
            rmatch [Star p, Lit l] xs c \<noteq> None \<or> starts l (x # xs)"
      using True by (auto split: option.splits)
    also have "\<dots> \<longleftrightarrow> (\<exists>i \<le> length (takeWhile p xs). starts l (drop i xs)) \<or> starts l (x # xs)"
      using Cons.IH by simp
    also have "\<dots> \<longleftrightarrow> (\<exists>j \<le> length (takeWhile p (x # xs)). starts l (drop j (x # xs)))"
    proof
      assume "(\<exists>i \<le> length (takeWhile p xs). starts l (drop i xs)) \<or> starts l (x # xs)"
      then show "\<exists>j \<le> length (takeWhile p (x # xs)). starts l (drop j (x # xs))"
      proof
        assume "\<exists>i \<le> length (takeWhile p xs). starts l (drop i xs)"
        then obtain i where "i \<le> length (takeWhile p xs)" "starts l (drop i xs)" by blast
        then have "Suc i \<le> length (takeWhile p (x # xs)) \<and> starts l (drop (Suc i) (x # xs))"
          using True by simp
        then show ?thesis by blast
      next
        assume "starts l (x # xs)"
        then have "0 \<le> length (takeWhile p (x # xs)) \<and> starts l (drop 0 (x # xs))" by simp
        then show ?thesis by blast
      qed
    next
      assume "\<exists>j \<le> length (takeWhile p (x # xs)). starts l (drop j (x # xs))"
      then obtain j where j: "j \<le> length (takeWhile p (x # xs))" "starts l (drop j (x # xs))"
        by blast
      show "(\<exists>i \<le> length (takeWhile p xs). starts l (drop i xs)) \<or> starts l (x # xs)"
      proof (cases j)
        case 0
        with j show ?thesis by simp
      next
        case (Suc i)
        with j True have "i \<le> length (takeWhile p xs) \<and> starts l (drop i xs)" by simp
        then show ?thesis by blast
      qed
    qed
    finally show ?thesis .
  qed
qed

lemma search_iff: "search rs s \<noteq> None \<longleftrightarrow> (\<exists>i \<le> length s. rmatch rs (drop i s) None \<noteq> None)"
proof (induction s)
  case Nil
  then show ?case by (simp split: option.splits)
next
  case (Cons x xs)
  have "search rs (x # xs) \<noteq> None \<longleftrightarrow> rmatch rs (x # xs) None \<noteq> None \<or> search rs xs \<noteq> None"
    by (auto split: option.splits)
  also have "\<dots> \<longleftrightarrow> rmatch rs (x # xs) None \<noteq> None \<or> (\<exists>i \<le> length xs. rmatch rs (drop i xs) None \<noteq> None)"
    using Cons.IH by simp
  also have "\<dots> \<longleftrightarrow> (\<exists>j \<le> length (x # xs). rmatch rs (drop j (x # xs)) None \<noteq> None)"
  proof
    assume "rmatch rs (x # xs) None \<noteq> None \<or> (\<exists>i \<le> length xs. rmatch rs (drop i xs) None \<noteq> None)"
    then show "\<exists>j \<le> length (x # xs). rmatch rs (drop j (x # xs)) None \<noteq> None"
    proof
      assume "rmatch rs (x # xs) None \<noteq> None"
      then have "0 \<le> length (x # xs) \<and> rmatch rs (drop 0 (x # xs)) None \<noteq> None" by simp
      then show ?thesis by blast
    next
      assume "\<exists>i \<le> length xs. rmatch rs (drop i xs) None \<noteq> None"
      then obtain i where "i \<le> length xs" "rmatch rs (drop i xs) None \<noteq> None" by blast
      then have "Suc i \<le> length (x # xs) \<and> rmatch rs (drop (Suc i) (x # xs)) None \<noteq> None"
        by simp
      then show ?thesis by blast
    qed
  next
    assume "\<exists>j \<le> length (x # xs). rmatch rs (drop j (x # xs)) None \<noteq> None"
    then obtain j where j: "j \<le> length (x # xs)" "rmatch rs (drop j (x # xs)) None \<noteq> None"
      by blast
    show "rmatch rs (x # xs) None \<noteq> None \<or> (\<exists>i \<le> length xs. rmatch rs (drop i xs) None \<noteq> None)"
    proof (cases j)
      case 0
      with j show ?thesis by simp
    next
      case (Suc i)
      with j have "i \<le> length xs \<and> rmatch rs (drop i xs) None \<noteq> None" by simp
      then show ?thesis by blast
    qed
  qed
  finally show ?case .
qed

section \<open>The validator's contract\<close>

text \<open>
  The contract of the validator, in the words of the specification: what a string contains
  is stated by decomposition, not by the program's search.
\<close>

definition contains :: "jsstring \<Rightarrow> string \<Rightarrow> bool" where
  "contains u w = (\<exists>a b. u = a @ js w @ b)"

definition hasLongToken :: "jsstring \<Rightarrow> bool" where
  "hasLongToken u =
     (\<exists>pre tok post. u = pre @ tok @ js ''.mp4'' @ post \<and> 40 \<le> length tok \<and> list_all is_token tok)"

definition cdnFingerprint :: "jsstring \<Rightarrow> bool" where
  "cdnFingerprint u =
     (contains u ''scontent'' \<and> contains u ''.fna.fbcdn.net'' \<and>
      (contains u ''/o1/v/'' \<or> contains u ''/o2/v/'') \<and>
      contains u ''.mp4?'' \<and> contains u ''_nc_cat='' \<and> hasLongToken u)"

definition excluded :: "jsstring \<Rightarrow> bool" where
  "excluded u =
     (contains u ''.mpd'' \<or> contains u ''segment'' \<or> contains u ''manifest'' \<or>
      contains u ''init.mp4'' \<or> contains u ''dash'')"

definition validatorContract :: "runtime \<Rightarrow> jsval \<Rightarrow> bool" where
  "validatorContract rt v =
     (\<exists>u. v = Str u \<and> 200 \<le> length u \<and>
          ((\<exists>r. u = js ''http://'' @ r) \<or> (\<exists>r. u = js ''https://'' @ r)) \<and>
          urlParses rt u \<and> contains u ''.mp4'' \<and> cdnFingerprint u \<and> \<not> excluded u)"

lemma take_within_takeWhile: "j \<le> length (takeWhile p xs) \<Longrightarrow> list_all p (take j xs)"
proof (induction xs arbitrary: j)
  case Nil
  then show ?case by simp
next
  case (Cons x xs)
  then show ?case by (cases j; cases "p x") simp_all
qed

lemma list_all_drop: "list_all p xs \<Longrightarrow> list_all p (drop n xs)"
  by (metis in_set_dropD list_all_iff)

lemma list_all_take: "list_all p xs \<Longrightarrow> list_all p (take n xs)"
  by (metis in_set_takeD list_all_iff)

lemma length_takeWhile_append: "list_all p xs \<Longrightarrow> length xs \<le> length (takeWhile p (xs @ ys))"
  by (induction xs) simp_all

lemma test_long_token: "test (at_least 40 is_token @ [Lit (js ''.mp4'')]) u = hasLongToken u"
proof
  let ?l = "js ''.mp4''"
  assume "test (at_least 40 is_token @ [Lit ?l]) u"
  then obtain i where i: "i \<le> length u"
      "rmatch (replicate 40 (Cls is_token) @ [Star is_token, Lit ?l]) (drop i u) None \<noteq> None"
    unfolding test_def at_least_def search_iff by auto
  define s where "s = drop i u"
  from i(2) have s: "40 \<le> length s" "list_all is_token (take 40 s)"
      "rmatch [Star is_token, Lit ?l] (drop 40 s) None \<noteq> None"
    unfolding rmatch_replicate_Cls s_def by (auto split: if_splits)
  from s(3) obtain j where j: "j \<le> length (takeWhile is_token (drop 40 s))"
      "starts ?l (drop j (drop 40 s))"
    unfolding rmatch_Star_Lit by blast
  from j(2) obtain post where post: "drop j (drop 40 s) = ?l @ post"
    using starts_iff by blast
  define tok where "tok = take 40 s @ take j (drop 40 s)"
  have "list_all is_token (take j (drop 40 s))"
    using j(1) by (rule take_within_takeWhile)
  then have "list_all is_token tok"
    using s(2) by (simp add: tok_def)
  moreover have "40 \<le> length tok"
    using s(1) by (simp add: tok_def)
  moreover have "u = take i u @ tok @ ?l @ post"
  proof -
    have "drop 40 s = take j (drop 40 s) @ ?l @ post"
      using post append_take_drop_id [of j "drop 40 s"] by simp
    then have "s = take 40 s @ take j (drop 40 s) @ ?l @ post"
      using append_take_drop_id [of 40 s] by simp
    then have "s = tok @ ?l @ post"
      by (simp add: tok_def)
    then show ?thesis
      unfolding s_def using append_take_drop_id [of i u] by simp
  qed
  ultimately show "hasLongToken u"
    unfolding hasLongToken_def by blast
next
  let ?l = "js ''.mp4''"
  assume "hasLongToken u"
  then obtain pre tok post where u: "u = pre @ tok @ ?l @ post" and
      tok: "40 \<le> length tok" "list_all is_token tok"
    unfolding hasLongToken_def by blast
  define s where "s = tok @ ?l @ post"
  have ds: "drop (length pre) u = s"
    by (simp add: u s_def)
  have t40: "take 40 s = take 40 tok"
    using tok(1) by (simp add: s_def)
  have d40: "drop 40 s = drop 40 tok @ ?l @ post"
    using tok(1) by (simp add: s_def)
  have "list_all is_token (drop 40 tok)"
    using tok(2) by (rule list_all_drop)
  then have "length (drop 40 tok) \<le> length (takeWhile is_token (drop 40 s))"
    unfolding d40 by (rule length_takeWhile_append)
  moreover have "starts ?l (drop (length (drop 40 tok)) (drop 40 s))"
    unfolding d40 starts_iff by simp
  ultimately have "rmatch [Star is_token, Lit ?l] (drop 40 s) None \<noteq> None"
    unfolding rmatch_Star_Lit by blast
  moreover have "list_all is_token (take 40 s)"
    unfolding t40 using tok(2) by (rule list_all_take)
  moreover have "40 \<le> length s"
    using tok(1) by (simp add: s_def)
  ultimately have "rmatch (replicate 40 (Cls is_token) @ [Star is_token, Lit ?l]) s None \<noteq> None"
    unfolding rmatch_replicate_Cls by simp
  moreover have "length pre \<le> length u"
    by (simp add: u)
  ultimately show "test (at_least 40 is_token @ [Lit ?l]) u"
    unfolding test_def at_least_def search_iff using ds by auto
qed

lemma str_includes_contains: "str_includes u (js w) = contains u w"
  by (simp add: str_includes_iff contains_def)

lemma contains_nc_cat: "(contains u ''_nc_cat='' \<or> contains u ''&_nc_cat='') = contains u ''_nc_cat=''"
proof -
  have "contains u ''_nc_cat=''" if "contains u ''&_nc_cat=''"
  proof -
    from that obtain a b where "u = a @ js ''&_nc_cat='' @ b"
      unfolding contains_def by blast
    moreover have "js ''&_nc_cat='' = [38] @ js ''_nc_cat=''"
      by (simp add: js_def)
    ultimately have "u = (a @ [38]) @ js ''_nc_cat='' @ b"
      by simp
    then show ?thesis
      unfolding contains_def by blast
  qed
  then show ?thesis by blast
qed

lemma isValidVideoUrl_Str:
  "isValidVideoUrl rt (Str u) =
     (200 \<le> length u \<and> startsHttp u \<and> urlParses rt u \<and> str_includes u (js ''.mp4'') \<and>
      hasFacebookVideoIndicator u \<and> \<not> isDashOrSegment u)"
  unfolding isValidVideoUrl_def by (cases "u = []") auto

text \<open>
  Claim C4: \<open>isValidVideoUrl\<close> returns true exactly for a string of at least 200 code
  units that starts with \<open>http://\<close> or \<open>https://\<close>, parses as a URL, contains \<open>.mp4\<close>,
  matches the CDN fingerprint (\<open>scontent\<close>, \<open>.fna.fbcdn.net\<close>, \<open>/o1/v/\<close> or \<open>/o2/v/\<close>,
  \<open>.mp4?\<close>, \<open>_nc_cat=\<close>, a token of at least 40 letters, digits, dashes or underscores
  right before \<open>.mp4\<close>) and contains no exclusion marker; a URL that does not parse gives
  false, not an error.
\<close>

theorem isValidVideoUrl_contract: "isValidVideoUrl rt v = validatorContract rt v"
proof (cases v)
  case NonString
  then show ?thesis
    by (simp add: isValidVideoUrl_def validatorContract_def)
next
  case (Str u)
  have fp: "hasFacebookVideoIndicator u = cdnFingerprint u"
    unfolding hasFacebookVideoIndicator_def cdnFingerprint_def
      str_includes_contains test_long_token contains_nc_cat
    by blast
  have ex: "isDashOrSegment u = excluded u"
    unfolding isDashOrSegment_def excluded_def str_includes_contains by simp
  have sh: "startsHttp u = ((\<exists>r. u = js ''http://'' @ r) \<or> (\<exists>r. u = js ''https://'' @ r))"
    unfolding startsHttp_def starts_iff by simp
  have "validatorContract rt (Str u) =
     (200 \<le> length u \<and> startsHttp u \<and> urlParses rt u \<and> contains u ''.mp4'' \<and>
      cdnFingerprint u \<and> \<not> excluded u)"
    unfolding validatorContract_def sh by simp
  then show ?thesis
    unfolding Str isValidVideoUrl_Str fp ex str_includes_contains by simp
qed

section \<open>Invariants of the extraction\<close>

text \<open>
  The invariant of the scan state: \<open>videos\<close> holds one video for each member of
  \<open>foundUrls\<close>, in the same order, and no URL twice.
\<close>

definition wellFormed :: "scan \<Rightarrow> bool" where
  "wellFormed st = (map url (videos st) = foundUrls st \<and> distinct (foundUrls st))"

lemma foldl_wellFormed:
  assumes "wellFormed st" and "\<And>s x. wellFormed s \<Longrightarrow> wellFormed (f s x)"
  shows "wellFormed (foldl f st xs)"
  using assms by (induction xs arbitrary: st) auto

lemma createVideoObject_url: "url (fst (createVideoObject rt n u)) = u"
  by (simp add: createVideoObject_def split: prod.splits)

lemma addVideo_wellFormed:
  "wellFormed st \<Longrightarrow> u \<notin> set (foundUrls st) \<Longrightarrow> wellFormed (addVideo rt u st)"
  using createVideoObject_url [of rt "draws st" u]
  by (auto simp: wellFormed_def addVideo_def split: prod.splits)

lemma scanMatch_wellFormed: "wellFormed st \<Longrightarrow> wellFormed (scanMatch rt i st mt)"
  unfolding scanMatch_def Let_def by (auto intro: addVideo_wellFormed)

lemma scanPatterns_wellFormed: "wellFormed st \<Longrightarrow> wellFormed (scanPatterns rt html st)"
  unfolding scanPatterns_def scanPattern_def
  by (intro foldl_wellFormed scanMatch_wellFormed)

lemma fallbackMatch_wellFormed: "wellFormed st \<Longrightarrow> wellFormed (fallbackMatch rt st mt)"
  unfolding fallbackMatch_def Let_def by (auto intro: addVideo_wellFormed)

lemma fallbackVideoSearch_wellFormed:
  "wellFormed st \<Longrightarrow> wellFormed (fallbackVideoSearch rt html st)"
  unfolding fallbackVideoSearch_def
  by (intro foldl_wellFormed fallbackMatch_wellFormed)

lemma mergeVideo_wellFormed: "wellFormed st \<Longrightarrow> wellFormed (mergeVideo st v)"
  by (simp add: wellFormed_def mergeVideo_def)

lemma mergeFound_wellFormed: "wellFormed st \<Longrightarrow> wellFormed (mergeFound st acc)"
  unfolding mergeFound_def
  by (intro foldl_wellFormed mergeVideo_wellFormed) (simp add: wellFormed_def)

lemma discoverVideos_wellFormed: "wellFormed (discoverVideos rt html)"
proof -
  define st0 :: scan where "st0 = \<lparr>foundUrls = [], videos = [], draws = 0\<rparr>"
  define st1 where "st1 = scanPatterns rt (cleanHtml html) st0"
  define st2 where
    "st2 = (if videos st1 = [] then fallbackVideoSearch rt (cleanHtml html) st1 else st1)"
  have "wellFormed st0"
    by (simp add: st0_def wellFormed_def)
  then have "wellFormed st1"
    unfolding st1_def by (rule scanPatterns_wellFormed)
  then have "wellFormed st2"
    unfolding st2_def by (simp add: fallbackVideoSearch_wellFormed)
  then show ?thesis
    unfolding discoverVideos_def Let_def st2_def st1_def st0_def
    by (intro mergeFound_wellFormed)
qed

lemma distinct_map_sort_key: "distinct (map f (sort_key k xs)) = distinct (map f xs)"
  by (simp add: distinct_map)

text \<open>
  Claim C8 (uniqueness): no two entries of the list that \<open>extractVideos\<close> returns share a
  URL, whatever the candidate source (rule table, fallback scan, Cheerio, JSON-LD): each
  source checks \<open>foundUrls\<close> before it adds a video, and the final sort only permutes.
\<close>

theorem extractVideos_unique: "distinct (map url (extractVideos rt html))"
proof -
  have "distinct (map url (videos (discoverVideos rt html)))"
    using discoverVideos_wellFormed [of rt html] unfolding wellFormed_def by simp
  then show ?thesis
    unfolding extractVideos_def sortVideosByQuality_def
    by (simp only: distinct_map_sort_key)
qed

section \<open>The normalizer and the decoder\<close>

text \<open>A text with none of the escape sequences that \<open>cleanHtml\<close> decodes.\<close>

definition escapeFree :: "jsstring \<Rightarrow> bool" where
  "escapeFree t =
     (\<not> test unicodeEscape t \<and> \<not> str_includes t [92, 34] \<and> \<not> str_includes t [92, 92] \<and>
      \<not> str_includes t (js ''&quot;'') \<and> \<not> str_includes t (js ''&amp;'') \<and>
      \<not> str_includes t (js ''&lt;'') \<and> \<not> str_includes t (js ''&gt;''))"

lemma replaceAll_absent: "\<not> str_includes s pat \<Longrightarrow> replaceAll pat rep s = s"
  by (induction s) auto

lemma replaceRx_absent: "\<not> test rs s \<Longrightarrow> replaceRx rs f s = s"
  by (simp add: test_def replaceRx.simps)

lemma cleanHtml_fixpoint: "escapeFree t \<Longrightarrow> cleanHtml t = t"
  by (simp add: escapeFree_def cleanHtml_def replaceAll_absent replaceRx_absent)

text \<open>
  Claim C7 as stated, that \<open>cleanHtml\<close> is idempotent on every text, fails: the passes run
  once each, in a fixed order, so \<open>&amp;amp;\<close> becomes \<open>&amp;\<close>, which a second run turns
  into \<open>&\<close>.
\<close>

theorem cleanHtml_idempotent_counterexample:
  "cleanHtml (cleanHtml (js ''&amp;amp;'')) \<noteq> cleanHtml (js ''&amp;amp;'')"
  by code_simp

text \<open>
  Claim C7, amended: \<open>cleanHtml (cleanHtml t) = cleanHtml t\<close> for every text \<open>t\<close> whose
  normalized form holds no escape sequence of the normalizer (\<open>\uXXXX\<close>, an escaped quote
  or backslash, \<open>&quot;\<close>, \<open>&amp;\<close>, \<open>&lt;\<close>, \<open>&gt;\<close>): such a text is a fixed point.
\<close>

theorem cleanHtml_idempotent_when_decoded:
  "escapeFree (cleanHtml t) \<Longrightarrow> cleanHtml (cleanHtml t) = cleanHtml t"
  by (rule cleanHtml_fixpoint)

lemma escapeFree_example: "escapeFree (cleanHtml (js ''a&lt;b&amp;c''))"
  by code_simp

theorem cleanHtml_idempotent_when_decoded_witness:
  "escapeFree (cleanHtml (js ''a&lt;b&amp;c'')) \<and>
   cleanHtml (cleanHtml (js ''a&lt;b&amp;c'')) = cleanHtml (js ''a&lt;b&amp;c'')"
  using cleanHtml_idempotent_when_decoded [OF escapeFree_example] escapeFree_example by simp

text \<open>
  Claim C10 at the input \<open><x>%\<close>, where the percent-decoding throws: the \<open>catch\<close> block,
  whose comment is \<open>return the original URL with basic cleanup\<close>, cleans the variable
  \<open>url\<close>, which the \<open>try\<close> block has reassigned by then, its quotes and tags stripped.
  The result is \<open>%\<close>; the input with its backslashes and wrapping quotes removed and
  trimmed is \<open><x>%\<close>.
\<close>

theorem decodeUrl_catch_drops_tag:
  "decodeURIComponent (replaceAll [92] [] (stripTags (js ''<x>%''))) = None \<and>
   decodeUrl (Str (js ''<x>%'')) = js ''%'' \<and>
   basicCleanup (js ''<x>%'') = js ''<x>%''"
  by code_simp

section \<open>What the pipeline admits\<close>

text \<open>
  What the rule loop asks of a decoded candidate before anything else: at least 20 code
  units, no markup delimiter and no manifest marker, and an http or https scheme.
\<close>

definition survivesDiscard :: "jsstring \<Rightarrow> bool" where
  "survivesDiscard u = (20 \<le> length u \<and> \<not> isManifestFragment u \<and> startsHttp u)"

text \<open>The signature that lets a match of rule 31 skip the validator.\<close>

definition bypassSignature :: "jsstring \<Rightarrow> bool" where
  "bypassSignature u =
     (survivesDiscard u \<and> str_includes u (js ''scontent'') \<and> str_includes u (js ''.mp4''))"

definition accepted :: "runtime \<Rightarrow> jsstring \<Rightarrow> bool" where
  "accepted rt u = (isValidVideoUrl rt (Str u) \<or> bypassSignature u)"

lemma foundUrls_addVideo: "foundUrls (addVideo rt u st) = foundUrls st @ [u]"
  by (simp add: addVideo_def split: prod.splits)

lemma videos_addVideo:
  "videos (addVideo rt u st) = videos st @ [fst (createVideoObject rt (draws st) u)]"
  by (simp add: addVideo_def split: prod.splits)

text \<open>What one step of the rule loop does: nothing, or it adds the decoded candidate.\<close>

lemma scanMatch_cases:
  "scanMatch rt i st mt = st \<or>
   (scanMatch rt i st mt = addVideo rt (decodeUrl (Str (matchText mt))) st \<and>
    survivesDiscard (decodeUrl (Str (matchText mt))) \<and>
    (isValidVideoUrl rt (Str (decodeUrl (Str (matchText mt)))) \<or>
     i = 31 \<and> bypassSignature (decodeUrl (Str (matchText mt)))))"
  unfolding scanMatch_def Let_def survivesDiscard_def bypassSignature_def
  by (auto simp: not_less)

lemma fallbackMatch_cases:
  "fallbackMatch rt st mt = st \<or>
   (fallbackMatch rt st mt = addVideo rt (decodeUrl (Str (matchText mt))) st \<and>
    isValidVideoUrl rt (Str (decodeUrl (Str (matchText mt)))))"
  unfolding fallbackMatch_def Let_def by auto

subsection \<open>What the rule loop discards\<close>

definition cleanSince :: "scan \<Rightarrow> scan \<Rightarrow> bool" where
  "cleanSince st0 st = (\<forall>u \<in> set (foundUrls st). u \<in> set (foundUrls st0) \<or> survivesDiscard u)"

lemma scanMatch_cleanSince: "cleanSince st0 st \<Longrightarrow> cleanSince st0 (scanMatch rt i st mt)"
  using scanMatch_cases [of rt i st mt]
  by (auto simp: cleanSince_def foundUrls_addVideo)

lemma foldl_cleanSince:
  assumes "cleanSince st0 st" and "\<And>s x. cleanSince st0 s \<Longrightarrow> cleanSince st0 (f s x)"
  shows "cleanSince st0 (foldl f st xs)"
  using assms by (induction xs arbitrary: st) auto

lemma scanPatterns_cleanSince: "cleanSince st (scanPatterns rt html st)"
  unfolding scanPatterns_def scanPattern_def
  by (intro foldl_cleanSince scanMatch_cleanSince) (simp add: cleanSince_def)

text \<open>
  The rule loop discards a decoded candidate that has fewer than 20 code units, still
  contains \<open><\<close>, \<open>>\<close> or a manifest marker (\<open>BaseURL\<close>, \<open>SegmentBase\<close>, \<open>indexRange\<close>), or
  does not start with \<open>http://\<close> or \<open>https://\<close>, so every URL that this loop adds has none
  of these defects.
\<close>

lemma scanMatch_discards:
  "\<not> survivesDiscard (decodeUrl (Str (matchText mt))) \<Longrightarrow> scanMatch rt i st mt = st"
  using scanMatch_cases [of rt i st mt] by auto

lemma scanPatterns_survivors:
  "u \<in> set (foundUrls (scanPatterns rt html st)) \<Longrightarrow> u \<in> set (foundUrls st) \<or> survivesDiscard u"
  using scanPatterns_cleanSince [of st rt html] by (simp add: cleanSince_def)

subsection \<open>What the extraction accepts\<close>

definition allAccepted :: "runtime \<Rightarrow> scan \<Rightarrow> bool" where
  "allAccepted rt st = list_all (\<lambda>v. accepted rt (url v)) (videos st)"

definition allValid :: "runtime \<Rightarrow> found \<Rightarrow> bool" where
  "allValid rt acc = list_all (\<lambda>v. isValidVideoUrl rt (Str (url v))) (fst acc)"

lemma createVideoObject_eq_url: "createVideoObject rt n u = (v, k) \<Longrightarrow> url v = u"
  using createVideoObject_url [of rt n u] by simp

lemma addVideo_allAccepted: "allAccepted rt st \<Longrightarrow> accepted rt u \<Longrightarrow> allAccepted rt (addVideo rt u st)"
  by (simp add: allAccepted_def videos_addVideo createVideoObject_url)

lemma scanMatch_allAccepted: "allAccepted rt st \<Longrightarrow> allAccepted rt (scanMatch rt i st mt)"
  using scanMatch_cases [of rt i st mt]
  by (auto simp: accepted_def intro!: addVideo_allAccepted)

lemma fallbackMatch_allAccepted: "allAccepted rt st \<Longrightarrow> allAccepted rt (fallbackMatch rt st mt)"
  using fallbackMatch_cases [of rt st mt]
  by (auto simp: accepted_def intro!: addVideo_allAccepted)

lemma foldl_allAccepted:
  assumes "allAccepted rt st" and "\<And>s x. allAccepted rt s \<Longrightarrow> allAccepted rt (f s x)"
  shows "allAccepted rt (foldl f st xs)"
  using assms by (induction xs arbitrary: st) auto

lemma scanPatterns_allAccepted: "allAccepted rt st \<Longrightarrow> allAccepted rt (scanPatterns rt html st)"
  unfolding scanPatterns_def scanPattern_def
  by (intro foldl_allAccepted scanMatch_allAccepted)

lemma fallbackVideoSearch_allAccepted:
  "allAccepted rt st \<Longrightarrow> allAccepted rt (fallbackVideoSearch rt html st)"
  unfolding fallbackVideoSearch_def
  by (intro foldl_allAccepted fallbackMatch_allAccepted)

lemma foldl_allValid:
  assumes "allValid rt acc" and "\<And>a x. allValid rt a \<Longrightarrow> allValid rt (f a x)"
  shows "allValid rt (foldl f acc xs)"
  using assms by (induction xs arbitrary: acc) auto

lemma pushIfValid_allValid: "allValid rt acc \<Longrightarrow> allValid rt (pushIfValid rt acc v)"
  by (cases v) (auto simp: allValid_def pushIfValid_def split: prod.splits dest: createVideoObject_eq_url)

lemma scanScript_allValid: "allValid rt acc \<Longrightarrow> allValid rt (scanScript rt acc content)"
  unfolding scanScript_def
  by (cases content) (auto intro!: foldl_allValid pushIfValid_allValid)

lemma extractWithCheerio_allValid: "allValid rt (extractWithCheerio rt html n)"
  unfolding extractWithCheerio_def
  by (intro foldl_allValid scanScript_allValid pushIfValid_allValid) (simp add: allValid_def)

lemma scanJsonLd_allValid: "allValid rt acc \<Longrightarrow> allValid rt (scanJsonLd rt acc mt)"
  unfolding scanJsonLd_def
  by (auto split: option.splits intro!: foldl_allValid pushIfValid_allValid)

lemma extractFromStructuredData_allValid: "allValid rt (extractFromStructuredData rt html n)"
  unfolding extractFromStructuredData_def
  by (intro foldl_allValid scanJsonLd_allValid) (simp add: allValid_def)

lemma mergeVideo_allAccepted:
  "allAccepted rt st \<Longrightarrow> isValidVideoUrl rt (Str (url v)) \<Longrightarrow> allAccepted rt (mergeVideo st v)"
  by (simp add: allAccepted_def mergeVideo_def accepted_def)

lemma mergeFound_allAccepted:
  "allAccepted rt st \<Longrightarrow> allValid rt acc \<Longrightarrow> allAccepted rt (mergeFound st acc)"
proof -
  have "allAccepted rt s \<Longrightarrow> list_all (\<lambda>v. isValidVideoUrl rt (Str (url v))) vs \<Longrightarrow>
          allAccepted rt (foldl mergeVideo s vs)" for s vs
    by (induction vs arbitrary: s) (simp_all add: mergeVideo_allAccepted)
  moreover assume "allAccepted rt st" "allValid rt acc"
  ultimately show ?thesis
    by (simp add: mergeFound_def allValid_def allAccepted_def)
qed

lemma discoverVideos_allAccepted: "allAccepted rt (discoverVideos rt html)"
proof -
  define st0 :: scan where "st0 = \<lparr>foundUrls = [], videos = [], draws = 0\<rparr>"
  define st1 where "st1 = scanPatterns rt (cleanHtml html) st0"
  define st2 where
    "st2 = (if videos st1 = [] then fallbackVideoSearch rt (cleanHtml html) st1 else st1)"
  have "allAccepted rt st0"
    by (simp add: st0_def allAccepted_def)
  then have "allAccepted rt st1"
    unfolding st1_def by (rule scanPatterns_allAccepted)
  then have "allAccepted rt st2"
    unfolding st2_def by (simp add: fallbackVideoSearch_allAccepted)
  then show ?thesis
    unfolding discoverVideos_def Let_def st2_def st1_def st0_def
    by (intro mergeFound_allAccepted extractWithCheerio_allValid
        extractFromStructuredData_allValid)
qed

text \<open>
  On every path a URL of the result has at least 20 code units and starts with \<open>http://\<close>
  or \<open>https://\<close>: the validator asks for 200 code units and the scheme.
\<close>

lemma accepted_length_scheme: "accepted rt u \<Longrightarrow> 20 \<le> length u \<and> startsHttp u"
  unfolding accepted_def bypassSignature_def survivesDiscard_def isValidVideoUrl_Str
  by (auto split: if_splits)

lemma extractVideos_length_scheme:
  "v \<in> set (extractVideos rt html) \<Longrightarrow> 20 \<le> length (url v) \<and> startsHttp (url v)"
  using discoverVideos_allAccepted [of rt html] accepted_length_scheme [of rt "url v"]
  by (simp add: extractVideos_def sortVideosByQuality_def allAccepted_def list_all_iff)

text \<open>
  Claim C2, amended: every video that \<open>extractVideos\<close> returns has a URL that
  \<open>isValidVideoUrl\<close> accepts, or one that rule 31 admitted past the validator: it starts
  with \<open>http://\<close> or \<open>https://\<close>, has at least 20 code units, no markup delimiter and no
  manifest marker, and contains \<open>scontent\<close> and \<open>.mp4\<close>.
\<close>

theorem extractVideos_accepted:
  "\<forall>v \<in> set (extractVideos rt html). isValidVideoUrl rt (Str (url v)) \<or> bypassSignature (url v)"
  using discoverVideos_allAccepted [of rt html]
  by (simp add: extractVideos_def sortVideosByQuality_def allAccepted_def accepted_def list_all_iff)

section \<open>The order and the cap\<close>

text \<open>The rank of a quality label in the table \<open>qualityOrder\<close> of the final sort.\<close>

definition labelRank :: "video \<Rightarrow> nat" where
  "labelRank v = (case qualityOrder (quality v) of Some n \<Rightarrow> n | None \<Rightarrow> 5)"

lemma orderOf_labelRank: "quality v \<noteq> js ''4K'' \<Longrightarrow> orderOf v = labelRank v"
  by (auto simp: orderOf_def labelRank_def qualityOrder_def split: option.splits if_splits)

lemma orderOf_quality: "quality v = quality w \<Longrightarrow> orderOf v = orderOf w"
  by (simp add: orderOf_def)

lemma sortVideosByQuality_stable:
  "filter (\<lambda>v. quality v = q) (sortVideosByQuality vs) = filter (\<lambda>v. quality v = q) vs"
proof -
  define k where "k = (case qualityOrder q of None \<Rightarrow> 5 | Some n \<Rightarrow> if n = 0 then 5 else n)"
  have eq: "(\<lambda>v. orderOf v = k \<and> quality v = q) = (\<lambda>v. quality v = q)"
    by (auto simp: orderOf_def k_def)
  have "filter (\<lambda>v. quality v = q) (sort_key orderOf vs)
      = filter (\<lambda>v. quality v = q) (filter (\<lambda>v. orderOf v = k) (sort_key orderOf vs))"
    by (simp add: eq)
  also have "\<dots> = filter (\<lambda>v. quality v = q) (filter (\<lambda>v. orderOf v = k) vs)"
    by (simp only: sort_key_stable)
  also have "\<dots> = filter (\<lambda>v. quality v = q) vs"
    by (simp add: eq)
  finally show ?thesis
    by (simp add: sortVideosByQuality_def)
qed

lemma sortVideosByQuality_sorted:
  "sorted (map labelRank (filter (\<lambda>v. quality v \<noteq> js ''4K'') (sortVideosByQuality vs)))"
proof -
  let ?out = "filter (\<lambda>v. quality v \<noteq> js ''4K'') (sort_key orderOf vs)"
  have "sorted (map orderOf ?out)"
    by (simp add: sorted_filter)
  moreover have "map orderOf ?out = map labelRank ?out"
    by (rule map_cong) (simp_all add: orderOf_labelRank)
  ultimately show ?thesis
    by (simp add: sortVideosByQuality_def)
qed

text \<open>
  Claim C6, amended: \<open>extractVideos\<close> returns its videos in ascending rank of their quality
  label (2K, HD, SD, Low, Unknown Quality; the label is what \<open>detectQuality\<close> reads in the
  URL), not in descending \<open>getQualityScore\<close>; the sort is stable, so videos with the same
  label keep their order of discovery. Videos labelled 4K are left aside here.
\<close>

theorem extractVideos_sorted_by_label:
  "sorted (map labelRank (filter (\<lambda>v. quality v \<noteq> js ''4K'') (extractVideos rt html))) \<and>
   (\<forall>q. filter (\<lambda>v. quality v = q) (extractVideos rt html)
        = filter (\<lambda>v. quality v = q) (videos (discoverVideos rt html)))"
  unfolding extractVideos_def
  by (simp add: sortVideosByQuality_sorted sortVideosByQuality_stable)

text \<open>
  Claim C3, amended: \<open>limitResults(videos, maxVideos)\<close> never returns more than
  \<open>maxVideos\<close> entries, all of them entries of \<open>videos\<close>. Nothing on the path of
  \<open>extractVideos\<close> calls it.
\<close>

theorem limitResults_cap:
  "length (limitResults vs maxVideos) \<le> maxVideos \<and> set (limitResults vs maxVideos) \<subseteq> set vs"
  by (auto simp: limitResults_def sortByScore_def dest: in_set_takeD)

section \<open>Randomness\<close>

text \<open>A video with its audio flags set to the values of a URL without \<open>/m69/\<close>.\<close>

definition withoutAudio :: "video \<Rightarrow> video" where
  "withoutAudio v =
     v\<lparr>hasAudio := True,
       contentType := (contentType v)\<lparr>ct_hasAudio := True, ct_description := js ''Video + Audio''\<rparr>\<rparr>"

text \<open>The same runtime with other values of \<open>Math.random()\<close>.\<close>

definition reseed :: "runtime \<Rightarrow> (nat \<Rightarrow> real) \<Rightarrow> runtime" where
  "reseed rt r = rt\<lparr>random := r\<rparr>"

lemma isValidVideoUrl_reseed: "isValidVideoUrl (reseed rt r) v = isValidVideoUrl rt v"
proof -
  have "urlParses (reseed rt r) = urlParses rt"
    by (simp add: reseed_def)
  then show ?thesis
    by (cases v) (simp_all add: isValidVideoUrl_Str, simp add: isValidVideoUrl_def)
qed

lemma url_withoutAudio: "url (withoutAudio v) = url v"
  by (simp add: withoutAudio_def)

lemma orderOf_withoutAudio: "orderOf (withoutAudio v) = orderOf v"
  by (simp add: withoutAudio_def orderOf_def)

lemma createVideoObject_reseed:
  "snd (createVideoObject (reseed rt r) n u) = snd (createVideoObject rt n u) \<and>
   withoutAudio (fst (createVideoObject (reseed rt r) n u)) =
   withoutAudio (fst (createVideoObject rt n u))"
  by (simp add: createVideoObject_def detectContentType_def withoutAudio_def)

text \<open>Two scan states that differ in the audio flags of their videos only.\<close>

definition simScan :: "scan \<Rightarrow> scan \<Rightarrow> bool" where
  "simScan st st' =
     (foundUrls st = foundUrls st' \<and> draws st = draws st' \<and>
      map withoutAudio (videos st) = map withoutAudio (videos st'))"

definition simFound :: "found \<Rightarrow> found \<Rightarrow> bool" where
  "simFound acc acc' = (snd acc = snd acc' \<and> map withoutAudio (fst acc) = map withoutAudio (fst acc'))"

lemma addVideo_sim: "simScan st st' \<Longrightarrow> simScan (addVideo (reseed rt r) u st) (addVideo rt u st')"
  using createVideoObject_reseed [of rt r "draws st'" u]
  by (auto simp: simScan_def addVideo_def split: prod.splits)

lemma scanMatch_sim:
  "simScan st st' \<Longrightarrow> simScan (scanMatch (reseed rt r) i st mt) (scanMatch rt i st' mt)"
  unfolding scanMatch_def Let_def isValidVideoUrl_reseed
  by (auto simp: addVideo_sim) (auto simp: simScan_def)

lemma fallbackMatch_sim:
  "simScan st st' \<Longrightarrow> simScan (fallbackMatch (reseed rt r) st mt) (fallbackMatch rt st' mt)"
  unfolding fallbackMatch_def Let_def isValidVideoUrl_reseed
  by (auto simp: addVideo_sim) (auto simp: simScan_def)

lemma foldl_sim:
  assumes "simScan st st'" and "\<And>s s' x. simScan s s' \<Longrightarrow> simScan (f s x) (g s' x)"
  shows "simScan (foldl f st xs) (foldl g st' xs)"
  using assms by (induction xs arbitrary: st st') auto

lemma scanPatterns_sim:
  "simScan st st' \<Longrightarrow> simScan (scanPatterns (reseed rt r) html st) (scanPatterns rt html st')"
  unfolding scanPatterns_def scanPattern_def
  by (intro foldl_sim scanMatch_sim)

lemma fallbackVideoSearch_sim:
  "simScan st st' \<Longrightarrow>
   simScan (fallbackVideoSearch (reseed rt r) html st) (fallbackVideoSearch rt html st')"
  unfolding fallbackVideoSearch_def
  by (intro foldl_sim fallbackMatch_sim)

lemma foldl_simFound:
  assumes "simFound acc acc'" and "\<And>a a' x. simFound a a' \<Longrightarrow> simFound (f a x) (g a' x)"
  shows "simFound (foldl f acc xs) (foldl g acc' xs)"
  using assms by (induction xs arbitrary: acc acc') auto

lemma pushIfValid_sim:
  "simFound acc acc' \<Longrightarrow> simFound (pushIfValid (reseed rt r) acc v) (pushIfValid rt acc' v)"
proof (cases v)
  case NonString
  then show "simFound acc acc' \<Longrightarrow> ?thesis" by (simp add: pushIfValid_def)
next
  case (Str u)
  assume sim: "simFound acc acc'"
  then have n: "snd acc = snd acc'" by (simp add: simFound_def)
  show ?thesis
    using sim createVideoObject_reseed [of rt r "snd acc'" u]
    by (auto simp: Str pushIfValid_def isValidVideoUrl_reseed simFound_def n split: prod.splits)
qed

lemma scanScript_sim:
  "simFound acc acc' \<Longrightarrow> simFound (scanScript (reseed rt r) acc c) (scanScript rt acc' c)"
  unfolding scanScript_def
  by (cases c) (auto intro!: foldl_simFound pushIfValid_sim)

lemma extractWithCheerio_sim:
  "simFound (extractWithCheerio (reseed rt r) html n) (extractWithCheerio rt html n)"
proof -
  have dom: "videoSrc (reseed rt r) = videoSrc rt" "sourceSrc (reseed rt r) = sourceSrc rt"
    "scriptHtml (reseed rt r) = scriptHtml rt"
    by (simp_all add: reseed_def)
  show ?thesis
    unfolding extractWithCheerio_def dom
    by (intro foldl_simFound scanScript_sim pushIfValid_sim) (simp add: simFound_def)
qed

lemma findVideoUrls_reseed:
  "findVideoUrlsInObject (reseed rt r) j = findVideoUrlsInObject rt j"
  "findVideoUrlsInProps (reseed rt r) kvs = findVideoUrlsInProps rt kvs"
  by (induction rt j and rt kvs rule: findVideoUrlsInObject_findVideoUrlsInProps.induct)
     (simp_all add: isValidVideoUrl_reseed)

lemma scanJsonLd_sim:
  "simFound acc acc' \<Longrightarrow> simFound (scanJsonLd (reseed rt r) acc mt) (scanJsonLd rt acc' mt)"
proof -
  have jp: "jsonParse (reseed rt r) = jsonParse rt"
    by (simp add: reseed_def)
  assume "simFound acc acc'"
  then show ?thesis
    unfolding scanJsonLd_def jp findVideoUrls_reseed
    by (auto split: option.splits intro!: foldl_simFound pushIfValid_sim)
qed

lemma extractFromStructuredData_sim:
  "simFound (extractFromStructuredData (reseed rt r) html n) (extractFromStructuredData rt html n)"
  unfolding extractFromStructuredData_def
  by (intro foldl_simFound scanJsonLd_sim) (simp add: simFound_def)

lemma mergeVideo_sim:
  "simScan st st' \<Longrightarrow> withoutAudio v = withoutAudio v' \<Longrightarrow>
   simScan (mergeVideo st v) (mergeVideo st' v')"
proof -
  assume sim: "simScan st st'" and v: "withoutAudio v = withoutAudio v'"
  from v have "url v = url v'"
    using url_withoutAudio by metis
  with sim v show ?thesis
    by (simp add: simScan_def mergeVideo_def)
qed

lemma foldl_mergeVideo_sim:
  "simScan st st' \<Longrightarrow> map withoutAudio vs = map withoutAudio vs' \<Longrightarrow>
   simScan (foldl mergeVideo st vs) (foldl mergeVideo st' vs')"
proof (induction vs arbitrary: st st' vs')
  case Nil
  then show ?case by simp
next
  case (Cons v vs)
  then obtain v' ws where vs': "vs' = v' # ws" by (cases vs') auto
  with Cons.prems have "withoutAudio v = withoutAudio v'" "map withoutAudio vs = map withoutAudio ws"
    by simp_all
  then show ?case
    using Cons.IH [of "mergeVideo st v" "mergeVideo st' v'" ws] Cons.prems(1)
    by (simp add: vs' mergeVideo_sim)
qed

lemma mergeFound_sim:
  "simScan st st' \<Longrightarrow> simFound acc acc' \<Longrightarrow> simScan (mergeFound st acc) (mergeFound st' acc')"
  unfolding mergeFound_def
  by (rule foldl_mergeVideo_sim) (simp_all add: simScan_def simFound_def)

lemma discoverVideos_sim: "simScan (discoverVideos (reseed rt r) html) (discoverVideos rt html)"
proof -
  define st0 :: scan where "st0 = \<lparr>foundUrls = [], videos = [], draws = 0\<rparr>"
  define c where "c = cleanHtml html"
  define a1 where "a1 = scanPatterns (reseed rt r) c st0"
  define b1 where "b1 = scanPatterns rt c st0"
  define a2 where "a2 = (if videos a1 = [] then fallbackVideoSearch (reseed rt r) c a1 else a1)"
  define b2 where "b2 = (if videos b1 = [] then fallbackVideoSearch rt c b1 else b1)"
  define a3 where "a3 = mergeFound a2 (extractWithCheerio (reseed rt r) c (draws a2))"
  define b3 where "b3 = mergeFound b2 (extractWithCheerio rt c (draws b2))"
  have "simScan st0 st0"
    by (simp add: simScan_def)
  then have s1: "simScan a1 b1"
    unfolding a1_def b1_def by (rule scanPatterns_sim)
  then have "(videos a1 = []) = (videos b1 = [])"
    unfolding simScan_def by (metis map_is_Nil_conv)
  with s1 have s2: "simScan a2 b2"
    unfolding a2_def b2_def by (simp add: fallbackVideoSearch_sim)
  then have d2: "draws a2 = draws b2"
    by (simp add: simScan_def)
  have s3: "simScan a3 b3"
    unfolding a3_def b3_def d2 using s2 by (intro mergeFound_sim extractWithCheerio_sim)
  then have d3: "draws a3 = draws b3"
    by (simp add: simScan_def)
  have "simScan (mergeFound a3 (extractFromStructuredData (reseed rt r) c (draws a3)))
                (mergeFound b3 (extractFromStructuredData rt c (draws b3)))"
    unfolding d3 using s3 by (intro mergeFound_sim extractFromStructuredData_sim)
  then show ?thesis
    unfolding discoverVideos_def Let_def a3_def b3_def a2_def b2_def a1_def b1_def c_def st0_def .
qed

lemma insort_key_withoutAudio:
  "map withoutAudio (insort_key orderOf v vs) = insort_key orderOf (withoutAudio v) (map withoutAudio vs)"
  by (induction vs) (simp_all add: orderOf_withoutAudio)

lemma sort_key_withoutAudio:
  "map withoutAudio (sort_key orderOf vs) = sort_key orderOf (map withoutAudio vs)"
  by (induction vs) (simp_all add: insort_key_withoutAudio)

text \<open>Every video of a scan comes from \<open>createVideoObject\<close>.\<close>

definition created :: "runtime \<Rightarrow> video \<Rightarrow> bool" where
  "created rt v = (\<exists>n. v = fst (createVideoObject rt n (url v)))"

lemma created_createVideoObject: "created rt (fst (createVideoObject rt n u))"
proof -
  have "url (fst (createVideoObject rt n u)) = u"
    by (simp add: createVideoObject_def split: prod.splits)
  then show ?thesis
    unfolding created_def by metis
qed

lemma created_plain:
  "created rt v \<Longrightarrow> \<not> str_includes (url v) (js ''/m69/'') \<Longrightarrow> withoutAudio v = v"
proof -
  assume "created rt v" and no: "\<not> str_includes (url v) (js ''/m69/'')"
  then obtain n where v: "v = fst (createVideoObject rt n (url v))"
    unfolding created_def by blast
  have "withoutAudio (fst (createVideoObject rt n (url v))) = fst (createVideoObject rt n (url v))"
    using no by (simp add: createVideoObject_def detectContentType_def withoutAudio_def describe_def)
  with v show ?thesis by simp
qed

definition allCreated :: "runtime \<Rightarrow> video list \<Rightarrow> bool" where
  "allCreated rt vs = list_all (created rt) vs"

lemma addVideo_created:
  "allCreated rt (videos st) \<Longrightarrow> allCreated rt (videos (addVideo rt u st))"
  by (simp add: allCreated_def addVideo_def created_createVideoObject split: prod.splits)
     (metis created_createVideoObject fst_conv)

lemma scanMatch_created:
  "allCreated rt (videos st) \<Longrightarrow> allCreated rt (videos (scanMatch rt i st mt))"
  unfolding scanMatch_def Let_def by (auto intro: addVideo_created)

lemma fallbackMatch_created:
  "allCreated rt (videos st) \<Longrightarrow> allCreated rt (videos (fallbackMatch rt st mt))"
  unfolding fallbackMatch_def Let_def by (auto intro: addVideo_created)

lemma foldl_created:
  assumes "allCreated rt (videos st)"
    and "\<And>s x. allCreated rt (videos s) \<Longrightarrow> allCreated rt (videos (f s x))"
  shows "allCreated rt (videos (foldl f st xs))"
  using assms by (induction xs arbitrary: st) auto

lemma foldl_created_found:
  assumes "allCreated rt (fst acc)"
    and "\<And>a x. allCreated rt (fst a) \<Longrightarrow> allCreated rt (fst (f a x))"
  shows "allCreated rt (fst (foldl f acc xs))"
  using assms by (induction xs arbitrary: acc) auto

lemma pushIfValid_created: "allCreated rt (fst acc) \<Longrightarrow> allCreated rt (fst (pushIfValid rt acc v))"
  by (cases v)
     (auto simp: pushIfValid_def allCreated_def split: prod.splits,
      metis created_createVideoObject fst_conv)

lemma scanScript_created: "allCreated rt (fst acc) \<Longrightarrow> allCreated rt (fst (scanScript rt acc c))"
  unfolding scanScript_def
  by (cases c) (auto intro!: foldl_created_found pushIfValid_created)

lemma scanJsonLd_created: "allCreated rt (fst acc) \<Longrightarrow> allCreated rt (fst (scanJsonLd rt acc mt))"
  unfolding scanJsonLd_def
  by (auto split: option.splits intro!: foldl_created_found pushIfValid_created)

lemma mergeFound_created:
  "allCreated rt (videos st) \<Longrightarrow> allCreated rt (fst acc) \<Longrightarrow>
   allCreated rt (videos (mergeFound st acc))"
proof -
  have "allCreated rt (videos s) \<Longrightarrow> allCreated rt vs \<Longrightarrow>
          allCreated rt (videos (foldl mergeVideo s vs))" for s vs
    by (induction vs arbitrary: s) (simp_all add: allCreated_def mergeVideo_def)
  moreover assume "allCreated rt (videos st)" "allCreated rt (fst acc)"
  ultimately show ?thesis
    by (simp add: mergeFound_def)
qed

lemma discoverVideos_created: "allCreated rt (videos (discoverVideos rt html))"
proof -
  define st0 :: scan where "st0 = \<lparr>foundUrls = [], videos = [], draws = 0\<rparr>"
  define st1 where "st1 = scanPatterns rt (cleanHtml html) st0"
  define st2 where
    "st2 = (if videos st1 = [] then fallbackVideoSearch rt (cleanHtml html) st1 else st1)"
  have "allCreated rt (videos st0)"
    by (simp add: st0_def allCreated_def)
  then have "allCreated rt (videos st1)"
    unfolding st1_def scanPatterns_def scanPattern_def
    by (intro foldl_created scanMatch_created)
  then have "allCreated rt (videos st2)"
    unfolding st2_def fallbackVideoSearch_def
    by (auto intro!: foldl_created fallbackMatch_created)
  moreover have "allCreated rt (fst (extractWithCheerio rt c n))" for c n
    unfolding extractWithCheerio_def
    by (intro foldl_created_found scanScript_created pushIfValid_created)
       (simp add: allCreated_def)
  moreover have "allCreated rt (fst (extractFromStructuredData rt c n))" for c n
    unfolding extractFromStructuredData_def
    by (intro foldl_created_found scanJsonLd_created) (simp add: allCreated_def)
  ultimately show ?thesis
    unfolding discoverVideos_def Let_def st2_def st1_def st0_def
    by (intro mergeFound_created)
qed

text \<open>
  Claim C1, amended: two runs of \<open>extractVideos\<close> on the same text return the same videos in
  the same order and agree on every field but the audio flags (\<open>contentType.hasAudio\<close>,
  \<open>contentType.description\<close>, \<open>hasAudio\<close>); the audio flags of a video whose URL does
  not contain \<open>/m69/\<close> are fixed as well. For a URL with \<open>/m69/\<close> they follow
  \<open>Math.random()\<close>.
\<close>

theorem extractVideos_deterministic_but_audio:
  "map withoutAudio (extractVideos (reseed rt r) html) = map withoutAudio (extractVideos rt html) \<and>
   (\<forall>v \<in> set (extractVideos rt html).
      \<not> str_includes (url v) (js ''/m69/'') \<longrightarrow> withoutAudio v = v)"
proof
  have "map withoutAudio (videos (discoverVideos (reseed rt r) html))
      = map withoutAudio (videos (discoverVideos rt html))"
    using discoverVideos_sim [of rt r html] by (simp add: simScan_def)
  then show "map withoutAudio (extractVideos (reseed rt r) html)
      = map withoutAudio (extractVideos rt html)"
    by (simp add: extractVideos_def sortVideosByQuality_def sort_key_withoutAudio)
  show "\<forall>v \<in> set (extractVideos rt html).
      \<not> str_includes (url v) (js ''/m69/'') \<longrightarrow> withoutAudio v = v"
    using discoverVideos_created [of rt html]
    by (auto simp: extractVideos_def sortVideosByQuality_def allCreated_def list_all_iff
        intro: created_plain)
qed

section \<open>A worked extraction\<close>

text \<open>
  A runtime for a text without \<open>video\<close>, \<open>source\<close> and \<open>script\<close> elements: Cheerio finds
  none of them, no JSON-LD block is there to parse, and every URL parses. The values of
  \<open>Math.random()\<close> are left open.
\<close>

definition plainRuntime :: "(nat \<Rightarrow> real) \<Rightarrow> runtime" where
  "plainRuntime r =
     \<lparr>urlParses = (\<lambda>u. True), random = r, videoSrc = (\<lambda>html. []), sourceSrc = (\<lambda>html. []),
      scriptHtml = (\<lambda>html. []), jsonParse = (\<lambda>s. None)\<rparr>"

text \<open>
  The text \<open>"http:\/\/scontent/m412/.mp4","http:\/\/scontent/m69/hd.mp4"\<close>: two quoted URLs
  with escaped slashes, as Facebook's JSON carries them.
\<close>

definition twoUrls :: jsstring where
  "twoUrls =
     [34] @ js ''http:'' @ [92, 47, 92, 47] @ js ''scontent/m412/.mp4'' @ [34, 44, 34] @
     js ''http:'' @ [92, 47, 92, 47] @ js ''scontent/m69/hd.mp4'' @ [34]"

definition videoA :: video where
  "videoA =
     \<lparr>url = js ''http://scontent/m412/.mp4'', quality = js ''Unknown Quality'', vtype = js ''MP4'',
      vsize = js ''Unknown'',
      contentType = \<lparr>ct_hasVideo = True, ct_hasAudio = True, ct_description = js ''Video + Audio''\<rparr>,
      hasVideo = True, hasAudio = True, resolution = js ''1080p+''\<rparr>"

definition videoB :: "bool \<Rightarrow> video" where
  "videoB a =
     \<lparr>url = js ''http://scontent/m69/hd.mp4'', quality = js ''HD'', vtype = js ''MP4'',
      vsize = js ''~100MB'',
      contentType = \<lparr>ct_hasVideo = True, ct_hasAudio = a, ct_description = describe True a\<rparr>,
      hasVideo = True, hasAudio = a, resolution = js ''1080p''\<rparr>"

lemma cleanHtml_twoUrls: "cleanHtml twoUrls = twoUrls"
  by code_simp

lemma scanPatterns_twoUrls:
  "scanPatterns (plainRuntime r) twoUrls \<lparr>foundUrls = [], videos = [], draws = 0\<rparr> =
     \<lparr>foundUrls = [url videoA, url (videoB True)], videos = [videoA, videoB (r 0 > 3 / 10)],
      draws = 1\<rparr>"
  by code_simp

lemma extractVideos_twoUrls:
  "extractVideos (plainRuntime r) twoUrls = [videoB (r 0 > 3 / 10), videoA]"
  unfolding extractVideos_def discoverVideos_def Let_def cleanHtml_twoUrls scanPatterns_twoUrls
  by code_simp

lemma videoA_bypass:
  "\<not> isValidVideoUrl rt (Str (url videoA)) \<and> bypassSignature (url videoA) \<and>
   \<not> str_includes (url videoA) (js ''/m69/'') \<and> getQualityScore (url videoA) = 100"
  by code_simp

lemma videoB_score: "getQualityScore (url (videoB a)) = 20"
  by code_simp

text \<open>
  Claim C1 as stated fails: the second URL carries the format code \<open>/m69/\<close>, and its audio
  flag is \<open>Math.random() > 0.3\<close>. A run that draws \<open>0.5\<close> and a run that draws \<open>0\<close> return
  different lists.
\<close>

theorem extractVideos_random_counterexample:
  "extractVideos (plainRuntime (\<lambda>n. 1 / 2)) twoUrls \<noteq> extractVideos (plainRuntime (\<lambda>n. 0)) twoUrls \<and>
   map hasAudio (extractVideos (plainRuntime (\<lambda>n. 1 / 2)) twoUrls) = [True, True] \<and>
   map hasAudio (extractVideos (plainRuntime (\<lambda>n. 0)) twoUrls) = [False, True]"
  unfolding extractVideos_twoUrls by (simp add: videoA_def videoB_def)

text \<open>The amended claim C1 on the same text: the first URL has no \<open>/m69/\<close>.\<close>

theorem extractVideos_deterministic_but_audio_witness:
  "map withoutAudio (extractVideos (reseed (plainRuntime (\<lambda>n. 1 / 2)) (\<lambda>n. 0)) twoUrls)
     = map withoutAudio (extractVideos (plainRuntime (\<lambda>n. 1 / 2)) twoUrls) \<and>
   videoA \<in> set (extractVideos (plainRuntime (\<lambda>n. 1 / 2)) twoUrls) \<and>
   \<not> str_includes (url videoA) (js ''/m69/'') \<and> withoutAudio videoA = videoA"
  using extractVideos_deterministic_but_audio [of "plainRuntime (\<lambda>n. 1 / 2)" "\<lambda>n. 0" twoUrls]
    videoA_bypass extractVideos_twoUrls [of "\<lambda>n. 1 / 2"]
  by simp

text \<open>
  Claim C2 as stated fails: both URLs are matches of rule 31 with its signature, far
  shorter than 200 code units, and the validator rejects them.
\<close>

theorem extractVideos_accepted_counterexample:
  "\<not> (\<forall>v \<in> set (extractVideos (plainRuntime (\<lambda>n. 1 / 2)) twoUrls).
        isValidVideoUrl (plainRuntime (\<lambda>n. 1 / 2)) (Str (url v)))"
  unfolding extractVideos_twoUrls using videoA_bypass by simp

text \<open>The amended claim C2 on the same text.\<close>

theorem extractVideos_accepted_witness:
  "videoA \<in> set (extractVideos (plainRuntime (\<lambda>n. 1 / 2)) twoUrls) \<and>
   (isValidVideoUrl (plainRuntime (\<lambda>n. 1 / 2)) (Str (url videoA)) \<or> bypassSignature (url videoA))"
  using extractVideos_accepted [of "plainRuntime (\<lambda>n. 1 / 2)" twoUrls]
    extractVideos_twoUrls [of "\<lambda>n. 1 / 2"]
  by simp

text \<open>
  Claim C6 as stated fails: the URL with the score 20 carries the label HD and comes
  before the URL with the score 100, which carries no label.
\<close>

theorem extractVideos_sorted_counterexample:
  "\<not> sorted_wrt (\<lambda>a b. a \<ge> b)
       (map (\<lambda>v. getQualityScore (url v)) (extractVideos (plainRuntime (\<lambda>n. 1 / 2)) twoUrls))"
  unfolding extractVideos_twoUrls using videoA_bypass videoB_score by simp

section \<open>Cluster dedup\<close>

text \<open>The key of a video in the map of \<open>identifyMainVideos\<close>.\<close>

definition baseId :: "video \<Rightarrow> jsstring" where
  "baseId v = extractBaseVideoId (url v)"

text \<open>A video whose group has a member with one of the format codes \<open>isMainVideoGroup\<close> asks for.\<close>

definition mainGroup :: "video list \<Rightarrow> video \<Rightarrow> bool" where
  "mainGroup vs v = (\<exists>w \<in> set vs. baseId w = baseId v \<and> isHighQualityVideo (url w))"

text \<open>What the map holds after the videos \<open>vs\<close>: one entry for each base id, with the videos of that id in their order.\<close>

definition groupsOf :: "(jsstring \<times> video list) list \<Rightarrow> video list \<Rightarrow> bool" where
  "groupsOf m vs =
     (distinct (map fst m) \<and>
      (\<forall>(k, g) \<in> set m. g = filter (\<lambda>v. baseId v = k) vs \<and> g \<noteq> []) \<and>
      (\<forall>v \<in> set vs. baseId v \<in> fst ` set m))"

lemma pushToGroup_keys:
  "map fst (pushToGroup k v m) = (if k \<in> set (map fst m) then map fst m else map fst m @ [k])"
proof (induction m)
  case Nil
  then show ?case by simp
next
  case (Cons e m)
  obtain k0 g0 where e: "e = (k0, g0)" by (cases e)
  show ?case
    unfolding e using Cons.IH by (cases "k = k0") simp_all
qed

lemma fst_pushToGroup: "fst ` set (pushToGroup k v m) = insert k (fst ` set m)"
proof -
  have "set (map fst (pushToGroup k v m)) = insert k (set (map fst m))"
    unfolding pushToGroup_keys by auto
  then show ?thesis by simp
qed

lemma pushToGroup_entry:
  "distinct (map fst m) \<Longrightarrow> (k', g') \<in> set (pushToGroup k v m) \<Longrightarrow>
   (k' \<noteq> k \<and> (k', g') \<in> set m) \<or>
   (k' = k \<and> (\<exists>g. (k, g) \<in> set m \<and> g' = g @ [v])) \<or>
   (k' = k \<and> k \<notin> fst ` set m \<and> g' = [v])"
proof (induction m)
  case Nil
  then show ?case by simp
next
  case (Cons e m)
  obtain k0 g0 where e: "e = (k0, g0)" by (cases e)
  from Cons.prems(1) e have fresh: "k0 \<notin> fst ` set m" and dist: "distinct (map fst m)"
    by auto
  show ?case
  proof (cases "k = k0")
    case True
    with Cons.prems(2) e consider "(k', g') = (k0, g0 @ [v])" | "(k', g') \<in> set m"
      by auto
    then show ?thesis
    proof cases
      case 1
      with True e show ?thesis by auto
    next
      case 2
      with fresh have "k' \<noteq> k0" by force
      with 2 True show ?thesis by simp
    qed
  next
    case False
    with Cons.prems(2) e consider "(k', g') = (k0, g0)" | "(k', g') \<in> set (pushToGroup k v m)"
      by auto
    then show ?thesis
    proof cases
      case 1
      with False e show ?thesis by auto
    next
      case 2
      from Cons.IH [OF dist 2] False e show ?thesis by force
    qed
  qed
qed

lemma groupsOf_push:
  assumes "groupsOf m vs"
  shows "groupsOf (pushToGroup (baseId v) v m) (vs @ [v])"
proof -
  let ?k = "baseId v"
  let ?m = "pushToGroup ?k v m"
  from assms have dist: "distinct (map fst m)"
    and ent: "\<And>k g. (k, g) \<in> set m \<Longrightarrow> g = filter (\<lambda>w. baseId w = k) vs \<and> g \<noteq> []"
    and cov: "\<And>w. w \<in> set vs \<Longrightarrow> baseId w \<in> fst ` set m"
    unfolding groupsOf_def by auto
  have "distinct (map fst ?m)"
    using dist unfolding pushToGroup_keys by simp
  moreover have "g' = filter (\<lambda>w. baseId w = k') (vs @ [v]) \<and> g' \<noteq> []"
    if "(k', g') \<in> set ?m" for k' g'
  proof -
    from pushToGroup_entry [OF dist that] consider
      "k' \<noteq> ?k" "(k', g') \<in> set m" |
      g where "k' = ?k" "(?k, g) \<in> set m" "g' = g @ [v]" |
      "k' = ?k" "?k \<notin> fst ` set m" "g' = [v]"
      by blast
    then show ?thesis
    proof cases
      case 1
      with ent [of k' g'] show ?thesis by auto
    next
      case 2
      with ent [of ?k g] show ?thesis by auto
    next
      case 3
      have "baseId w \<noteq> ?k" if "w \<in> set vs" for w
        using cov [OF that] 3(2) by metis
      then have "filter (\<lambda>w. baseId w = ?k) vs = []"
        by (simp add: filter_empty_conv)
      with 3 show ?thesis by simp
    qed
  qed
  moreover have "baseId w \<in> fst ` set ?m" if "w \<in> set (vs @ [v])" for w
    using that cov by (auto simp: fst_pushToGroup)
  ultimately show ?thesis
    unfolding groupsOf_def by blast
qed

lemma groupsOf_videoMap: "groupsOf (videoMap vs) vs"
proof (induction vs rule: rev_induct)
  case Nil
  then show ?case by (simp add: videoMap_def groupsOf_def)
next
  case (snoc v vs)
  have "videoMap (vs @ [v]) = pushToGroup (baseId v) v (videoMap vs)"
    by (simp add: videoMap_def baseId_def)
  with groupsOf_push [OF snoc.IH] show ?case by simp
qed

lemma sort_key_head:
  assumes "sort_key f xs = y # ys"
  shows "y \<in> set xs \<and> (\<forall>x \<in> set xs. f y \<le> f x)"
proof -
  have "set (y # ys) = set xs"
    using assms set_sort [of f xs] by simp
  moreover have "sorted (map f (y # ys))"
    using assms sorted_sort_key [of f xs] by simp
  ultimately show ?thesis by auto
qed

lemma selectBest_Some:
  assumes "selectBestVideoFromGroup g = Some b"
  shows "b \<in> set g \<and> isComplete b \<and>
         (\<forall>w \<in> set g. isComplete w \<longrightarrow> getQualityScore (url w) \<le> getQualityScore (url b))"
proof -
  from assms obtain others where
    "sort_key (\<lambda>v. - int (getQualityScore (url v))) (filter isComplete g) = b # others"
    unfolding selectBestVideoFromGroup_def sortByScore_def by (auto split: list.splits)
  from sort_key_head [OF this] show ?thesis by auto
qed

lemma selectBest_None: "selectBestVideoFromGroup g = None \<Longrightarrow> w \<in> set g \<Longrightarrow> \<not> isComplete w"
proof -
  assume "selectBestVideoFromGroup g = None" and w: "w \<in> set g"
  then have "sort_key (\<lambda>v. - int (getQualityScore (url v))) (filter isComplete g) = []"
    unfolding selectBestVideoFromGroup_def sortByScore_def by (auto split: list.splits)
  then have "set (filter isComplete g) = {}"
    using set_sort [of "\<lambda>v. - int (getQualityScore (url v))" "filter isComplete g"] by simp
  with w show ?thesis by auto
qed

text \<open>What one group contributes.\<close>

definition pick :: "jsstring \<times> video list \<Rightarrow> video list" where
  "pick e =
     (if isMainVideoGroup (snd e)
      then (case selectBestVideoFromGroup (snd e) of Some bestVideo \<Rightarrow> [bestVideo] | None \<Rightarrow> [])
      else [])"

lemma identifyMainVideos_pick: "identifyMainVideos vs = concat (map pick (videoMap vs))"
proof -
  have "(\<lambda>(baseId, grp).
            if isMainVideoGroup grp
            then (case selectBestVideoFromGroup grp of Some bestVideo \<Rightarrow> [bestVideo] | None \<Rightarrow> [])
            else []) = pick"
    by (auto simp: pick_def fun_eq_iff)
  then show ?thesis
    by (simp add: identifyMainVideos_def)
qed

lemma pick_member:
  assumes "b \<in> set (pick (k, g))"
  shows "pick (k, g) = [b] \<and> isMainVideoGroup g \<and> selectBestVideoFromGroup g = Some b"
proof (cases "isMainVideoGroup g")
  case False
  with assms show ?thesis by (simp add: pick_def)
next
  case True
  with assms show ?thesis
    by (cases "selectBestVideoFromGroup g") (simp_all add: pick_def)
qed

lemma distinct_picks:
  assumes "distinct (map fst m)"
    and "\<And>k g b. (k, g) \<in> set m \<Longrightarrow> b \<in> set (pick (k, g)) \<Longrightarrow> baseId b = k"
  shows "distinct (map baseId (concat (map pick m)))"
  using assms
proof (induction m)
  case Nil
  then show ?case by simp
next
  case (Cons e m)
  obtain k g where e: "e = (k, g)" by (cases e)
  have IH: "distinct (map baseId (concat (map pick m)))"
    using Cons by auto
  have here: "distinct (map baseId (pick (k, g)))"
    by (auto simp: pick_def split: option.splits)
  have "baseId b \<noteq> baseId b'"
    if "b \<in> set (pick (k, g))" "b' \<in> set (concat (map pick m))" for b b'
  proof -
    from that(2) obtain k' g' where kg': "(k', g') \<in> set m" "b' \<in> set (pick (k', g'))"
      by auto
    have "baseId b = k"
      using Cons.prems(2) [of k g b] that(1) e by simp
    moreover have "baseId b' = k'"
      using Cons.prems(2) [of k' g' b'] kg' by simp
    moreover have "k \<noteq> k'"
      using Cons.prems(1) kg'(1) e by force
    ultimately show ?thesis by simp
  qed
  with IH here show ?case
    unfolding e by (auto simp: image_iff)
qed

text \<open>
  Claim C5, amended: \<open>identifyMainVideos\<close> groups the candidates by base id. From every
  group that has a member with the format code \<open>/m412/\<close>, \<open>/m540/\<close> or \<open>/m366/\<close> and a
  member that \<open>analyzeContentType\<close> finds complete (video and audio, not low quality) it
  keeps exactly one video, a complete member of the group with the highest
  \<open>getQualityScore\<close> among the complete ones; every other group is dropped, so no group
  without a complete member is surfaced. \<open>extractVideos\<close> does not call
  \<open>identifyMainVideos\<close>.
\<close>

theorem identifyMainVideos_selects:
  "(\<forall>v \<in> set (identifyMainVideos vs).
      v \<in> set vs \<and> isComplete v \<and> mainGroup vs v \<and>
      (\<forall>w \<in> set vs. baseId w = baseId v \<and> isComplete w \<longrightarrow>
         getQualityScore (url w) \<le> getQualityScore (url v))) \<and>
   distinct (map baseId (identifyMainVideos vs)) \<and>
   (\<forall>w \<in> set vs. isComplete w \<and> mainGroup vs w \<longrightarrow>
      (\<exists>v \<in> set (identifyMainVideos vs). baseId v = baseId w))"
proof -
  let ?m = "videoMap vs"
  have G: "groupsOf ?m vs"
    by (rule groupsOf_videoMap)
  then have dist: "distinct (map fst ?m)"
    and ent: "\<And>k g. (k, g) \<in> set ?m \<Longrightarrow> g = filter (\<lambda>w. baseId w = k) vs \<and> g \<noteq> []"
    and cov: "\<And>w. w \<in> set vs \<Longrightarrow> baseId w \<in> fst ` set ?m"
    unfolding groupsOf_def by auto
  have sel: "v \<in> set vs \<and> isComplete v \<and> mainGroup vs v \<and> baseId v = k \<and>
      (\<forall>w \<in> set vs. baseId w = baseId v \<and> isComplete w \<longrightarrow>
         getQualityScore (url w) \<le> getQualityScore (url v))"
    if kg: "(k, g) \<in> set ?m" and v: "v \<in> set (pick (k, g))" for k g v
  proof -
    from pick_member [OF v] have main: "isMainVideoGroup g" and best: "selectBestVideoFromGroup g = Some v"
      by simp_all
    from ent [OF kg] have g: "g = filter (\<lambda>w. baseId w = k) vs" by simp
    from selectBest_Some [OF best] have vg: "v \<in> set g" and c: "isComplete v"
      and top: "\<And>w. w \<in> set g \<Longrightarrow> isComplete w \<Longrightarrow> getQualityScore (url w) \<le> getQualityScore (url v)"
      by auto
    from vg g have vk: "v \<in> set vs" "baseId v = k" by auto
    from main obtain h where "h \<in> set g" "isHighQualityVideo (url h)"
      unfolding isMainVideoGroup_def by (auto simp: list_ex_iff split: if_splits)
    with g vk have "mainGroup vs v"
      unfolding mainGroup_def by auto
    moreover have "getQualityScore (url w) \<le> getQualityScore (url v)"
      if "w \<in> set vs" "baseId w = baseId v" "isComplete w" for w
      using top [of w] that g vk by simp
    ultimately show ?thesis
      using vk c by blast
  qed
  have one: "\<forall>v \<in> set (identifyMainVideos vs).
      v \<in> set vs \<and> isComplete v \<and> mainGroup vs v \<and>
      (\<forall>w \<in> set vs. baseId w = baseId v \<and> isComplete w \<longrightarrow>
         getQualityScore (url w) \<le> getQualityScore (url v))"
  proof
    fix v assume "v \<in> set (identifyMainVideos vs)"
    then obtain k g where "(k, g) \<in> set ?m" "v \<in> set (pick (k, g))"
      unfolding identifyMainVideos_pick by auto
    from sel [OF this] show "v \<in> set vs \<and> isComplete v \<and> mainGroup vs v \<and>
      (\<forall>w \<in> set vs. baseId w = baseId v \<and> isComplete w \<longrightarrow>
         getQualityScore (url w) \<le> getQualityScore (url v))"
      by blast
  qed
  have two: "distinct (map baseId (identifyMainVideos vs))"
    unfolding identifyMainVideos_pick
    using dist sel by (intro distinct_picks) auto
  have three: "\<forall>w \<in> set vs. isComplete w \<and> mainGroup vs w \<longrightarrow>
      (\<exists>v \<in> set (identifyMainVideos vs). baseId v = baseId w)"
  proof (intro ballI impI)
    fix w assume w: "w \<in> set vs" and cm: "isComplete w \<and> mainGroup vs w"
    from cov [OF w] obtain g where kg: "(baseId w, g) \<in> set ?m" by force
    from ent [OF kg] have g: "g = filter (\<lambda>x. baseId x = baseId w) vs" by simp
    from cm obtain h where "h \<in> set vs" "baseId h = baseId w" "isHighQualityVideo (url h)"
      unfolding mainGroup_def by auto
    then have "h \<in> set g" using g by simp
    then have main: "isMainVideoGroup g"
      using \<open>isHighQualityVideo (url h)\<close>
      unfolding isMainVideoGroup_def by (cases g) (auto simp: list_ex_iff)
    have wg: "w \<in> set g" using w g by simp
    obtain b where best: "selectBestVideoFromGroup g = Some b"
      using selectBest_None [of g w] wg cm by (cases "selectBestVideoFromGroup g") auto
    then have "b \<in> set (pick (baseId w, g))"
      using main by (simp add: pick_def)
    with kg have "b \<in> set (identifyMainVideos vs)"
      unfolding identifyMainVideos_pick by auto
    moreover have "baseId b = baseId w"
      using selectBest_Some [OF best] g by auto
    ultimately show "\<exists>v \<in> set (identifyMainVideos vs). baseId v = baseId w"
      by blast
  qed
  from one two three show ?thesis by blast
qed


text \<open>The video that \<open>createVideoObject\<close> makes of a URL.\<close>

definition mkVideo :: "jsstring \<Rightarrow> video" where
  "mkVideo u = fst (createVideoObject (plainRuntime (\<lambda>n. 1 / 2)) 0 u)"

lemma url_mkVideo: "url (mkVideo u) = u"
  by (simp add: mkVideo_def createVideoObject_url)

definition audioUrl :: jsstring where
  "audioUrl = js ''https://scontent.x/v/t2/f2/m78/clip_n.mp4''"

definition highUrl :: jsstring where
  "highUrl = js ''https://scontent.x/v/t2/m412/AbCdEfGhIjKlMnOpQrStUvWxYz0123456789-_AbCd_n.mp4''"

definition lowUrl :: jsstring where
  "lowUrl = js ''https://scontent.x/v/t2/m69/AbCdEfGhIjKlMnOpQrStUvWxYz0123456789-_AbCd_n.mp4''"

lemma audioUrl_facts:
  "extractBaseVideoId audioUrl = js ''m78'' \<and> \<not> isHighQualityVideo audioUrl \<and>
   an_hasVideo (analyzeContentType audioUrl) \<and> an_hasAudio (analyzeContentType audioUrl) \<and>
   an_quality (analyzeContentType audioUrl) \<noteq> js ''low''"
  by code_simp

lemma highUrl_facts:
  "extractBaseVideoId highUrl = js ''AbCdEfGhIjKlMnOpQrStUvWxYz0123'' \<and> isHighQualityVideo highUrl \<and>
   an_hasVideo (analyzeContentType highUrl) \<and> an_hasAudio (analyzeContentType highUrl) \<and>
   an_quality (analyzeContentType highUrl) \<noteq> js ''low'' \<and> getQualityScore highUrl = 100"
  by code_simp

lemma lowUrl_facts:
  "extractBaseVideoId lowUrl = js ''AbCdEfGhIjKlMnOpQrStUvWxYz0123'' \<and> \<not> isHighQualityVideo lowUrl \<and>
   \<not> an_hasAudio (analyzeContentType lowUrl) \<and> getQualityScore lowUrl = 20"
  by code_simp


lemma identifyMainVideos_audio: "identifyMainVideos [mkVideo audioUrl] = []"
  using audioUrl_facts
  by (simp add: identifyMainVideos_def videoMap_def isMainVideoGroup_def url_mkVideo)

lemma identifyMainVideos_variants:
  "identifyMainVideos [mkVideo lowUrl, mkVideo highUrl] = [mkVideo highUrl]"
  using highUrl_facts lowUrl_facts
  by (simp add: identifyMainVideos_def videoMap_def isMainVideoGroup_def url_mkVideo
      selectBestVideoFromGroup_def sortByScore_def isComplete_def)

text \<open>
  Claim C5 as stated fails: a group whose only member has the format code \<open>/m78/\<close> has a
  complete member (video and audio), and is dropped all the same, because
  \<open>isMainVideoGroup\<close> asks for \<open>/m412/\<close>, \<open>/m540/\<close> or \<open>/m366/\<close>.
\<close>

theorem identifyMainVideos_counterexample:
  "isComplete (mkVideo audioUrl) \<and> identifyMainVideos [mkVideo audioUrl] = [] \<and>
   \<not> (\<forall>w \<in> set [mkVideo audioUrl]. isComplete w \<longrightarrow>
        (\<exists>v \<in> set (identifyMainVideos [mkVideo audioUrl]). baseId v = baseId w))"
  using audioUrl_facts
  by (simp add: identifyMainVideos_audio isComplete_def url_mkVideo)

text \<open>
  The amended claim C5 on two URLs with the same hash, one with \<open>/m412/\<close> and one with
  \<open>/m69/\<close>: only the first is kept.
\<close>

theorem identifyMainVideos_selects_witness:
  "identifyMainVideos [mkVideo lowUrl, mkVideo highUrl] = [mkVideo highUrl] \<and>
   baseId (mkVideo lowUrl) = baseId (mkVideo highUrl) \<and> \<not> isComplete (mkVideo lowUrl) \<and>
   isComplete (mkVideo highUrl) \<and> mainGroup [mkVideo lowUrl, mkVideo highUrl] (mkVideo highUrl) \<and>
   distinct (map baseId (identifyMainVideos [mkVideo lowUrl, mkVideo highUrl]))"
  using identifyMainVideos_selects [of "[mkVideo lowUrl, mkVideo highUrl]"]
    highUrl_facts lowUrl_facts
  by (simp add: identifyMainVideos_variants isComplete_def baseId_def url_mkVideo)

section \<open>What reaches the result\<close>

subsection \<open>The set of found URLs only grows\<close>

definition grows :: "scan \<Rightarrow> scan \<Rightarrow> bool" where
  "grows st st' = (set (foundUrls st) \<subseteq> set (foundUrls st'))"

lemma grows_refl: "grows st st"
  by (simp add: grows_def)

lemma grows_trans: "grows a b \<Longrightarrow> grows b c \<Longrightarrow> grows a c"
  by (auto simp: grows_def)

lemma foldl_grows:
  assumes "\<And>s x. grows s (f s x)"
  shows "grows st (foldl f st xs)"
proof (induction xs arbitrary: st)
  case Nil
  then show ?case by (simp add: grows_refl)
next
  case (Cons x xs)
  have "grows st (f st x)" by (rule assms)
  moreover have "grows (f st x) (foldl f (f st x) xs)" by (rule Cons.IH)
  ultimately have "grows st (foldl f (f st x) xs)"
    by (rule grows_trans)
  then show ?case by simp
qed

lemma scanMatch_grows: "grows st (scanMatch rt i st mt)"
  using scanMatch_cases [of rt i st mt]
  by (auto simp: grows_def foundUrls_addVideo)

lemma fallbackMatch_grows: "grows st (fallbackMatch rt st mt)"
  using fallbackMatch_cases [of rt st mt]
  by (auto simp: grows_def foundUrls_addVideo)

lemma scanPattern_grows: "grows st (scanPattern rt html st ip)"
  unfolding scanPattern_def by (intro foldl_grows scanMatch_grows)

lemma fallbackVideoSearch_grows: "grows st (fallbackVideoSearch rt html st)"
  unfolding fallbackVideoSearch_def by (intro foldl_grows fallbackMatch_grows)

lemma mergeFound_grows: "grows st (mergeFound st acc)"
proof -
  have "grows (st\<lparr>draws := snd acc\<rparr>) (foldl mergeVideo (st\<lparr>draws := snd acc\<rparr>) (fst acc))"
    by (intro foldl_grows) (auto simp: grows_def mergeVideo_def)
  then show ?thesis
    by (simp add: mergeFound_def grows_def)
qed

subsection \<open>Rule 31\<close>

lemma rule31_admits:
  assumes "bypassSignature (decodeUrl (Str (matchText mt)))"
  shows "decodeUrl (Str (matchText mt)) \<in> set (foundUrls (scanMatch rt 31 st mt))"
proof -
  let ?u = "decodeUrl (Str (matchText mt))"
  from assms have "20 \<le> length ?u" "\<not> isManifestFragment ?u" "startsHttp ?u"
    "str_includes ?u (js ''scontent'')" "str_includes ?u (js ''.mp4'')"
    by (simp_all add: bypassSignature_def survivesDiscard_def)
  then have "scanMatch rt 31 st mt = (if ?u \<notin> set (foundUrls st) then addVideo rt ?u st else st)"
    unfolding scanMatch_def Let_def by auto
  then show ?thesis
    by (simp add: foundUrls_addVideo)
qed

lemma rule31_loop:
  assumes "mt \<in> set ms" "bypassSignature (decodeUrl (Str (matchText mt)))"
  shows "decodeUrl (Str (matchText mt)) \<in> set (foundUrls (foldl (scanMatch rt 31) st ms))"
  using assms(1)
proof (induction ms arbitrary: st)
  case Nil
  then show ?case by simp
next
  case (Cons m ms)
  show ?case
  proof (cases "mt = m")
    case True
    have "decodeUrl (Str (matchText mt)) \<in> set (foundUrls (scanMatch rt 31 st m))"
      using rule31_admits [OF assms(2)] True by simp
    moreover have "grows (scanMatch rt 31 st m) (foldl (scanMatch rt 31) (scanMatch rt 31 st m) ms)"
      by (intro foldl_grows scanMatch_grows)
    ultimately show ?thesis
      by (auto simp: grows_def)
  next
    case False
    with Cons.prems have "mt \<in> set ms" by simp
    from Cons.IH [OF this] show ?thesis by simp
  qed
qed

lemma videoPatterns_last:
  "videoPatterns = butlast videoPatterns @ [videoPatterns ! 31] \<and> length (butlast videoPatterns) = 31"
  by (simp add: videoPatterns_def)

lemma scanPatterns_rule31:
  "scanPatterns rt html st =
     foldl (scanMatch rt 31)
       (foldl (scanPattern rt html) st (enumerate 0 (butlast videoPatterns)))
       (execAll (videoPatterns ! 31) html)"
proof -
  have "enumerate 0 videoPatterns =
          enumerate 0 (butlast videoPatterns) @ [(31, videoPatterns ! 31)]"
    using videoPatterns_last enumerate_append_eq [of 0 "butlast videoPatterns" "[videoPatterns ! 31]"]
    by simp
  then show ?thesis
    by (simp add: scanPatterns_def scanPattern_def)
qed

lemma scanPatterns_admits:
  assumes "mt \<in> set (execAll (videoPatterns ! 31) html)"
    "bypassSignature (decodeUrl (Str (matchText mt)))"
  shows "decodeUrl (Str (matchText mt)) \<in> set (foundUrls (scanPatterns rt html st))"
  unfolding scanPatterns_rule31 using assms by (rule rule31_loop)

lemma discoverVideos_grows:
  "grows (scanPatterns rt (cleanHtml html) \<lparr>foundUrls = [], videos = [], draws = 0\<rparr>)
     (discoverVideos rt html)"
proof -
  define st1 where "st1 = scanPatterns rt (cleanHtml html) \<lparr>foundUrls = [], videos = [], draws = 0\<rparr>"
  define st2 where
    "st2 = (if videos st1 = [] then fallbackVideoSearch rt (cleanHtml html) st1 else st1)"
  define st3 where "st3 = mergeFound st2 (extractWithCheerio rt (cleanHtml html) (draws st2))"
  have "grows st1 st2"
    unfolding st2_def by (simp add: grows_refl fallbackVideoSearch_grows)
  moreover have "grows st2 st3"
    unfolding st3_def by (rule mergeFound_grows)
  moreover have "grows st3 (mergeFound st3 (extractFromStructuredData rt (cleanHtml html) (draws st3)))"
    by (rule mergeFound_grows)
  ultimately have "grows st1 (mergeFound st3 (extractFromStructuredData rt (cleanHtml html) (draws st3)))"
    using grows_trans by blast
  then show ?thesis
    unfolding discoverVideos_def Let_def st3_def st2_def st1_def .
qed

lemma extractVideos_length:
  "length (extractVideos rt html) = length (foundUrls (discoverVideos rt html))"
proof -
  have "map url (videos (discoverVideos rt html)) = foundUrls (discoverVideos rt html)"
    using discoverVideos_wellFormed [of rt html] by (simp add: wellFormed_def)
  then have "length (videos (discoverVideos rt html)) = length (foundUrls (discoverVideos rt html))"
    by (metis length_map)
  then show ?thesis
    by (simp add: extractVideos_def sortVideosByQuality_def)
qed

text \<open>Every match of rule 31 with the bypass signature adds to the length of the result.\<close>

lemma extractVideos_at_least:
  assumes "distinct us"
    and "\<And>u. u \<in> set us \<Longrightarrow>
           \<exists>mt \<in> set (execAll (videoPatterns ! 31) (cleanHtml html)).
             decodeUrl (Str (matchText mt)) = u \<and> bypassSignature u"
  shows "length us \<le> length (extractVideos rt html)"
proof -
  let ?st0 = "\<lparr>foundUrls = [], videos = [], draws = 0\<rparr>"
  have "u \<in> set (foundUrls (discoverVideos rt html))" if "u \<in> set us" for u
  proof -
    from assms(2) [OF that] obtain mt where
      mt: "mt \<in> set (execAll (videoPatterns ! 31) (cleanHtml html))"
        "decodeUrl (Str (matchText mt)) = u" "bypassSignature u"
      by blast
    then have "u \<in> set (foundUrls (scanPatterns rt (cleanHtml html) ?st0))"
      using scanPatterns_admits [of mt "cleanHtml html" rt ?st0] by simp
    then show ?thesis
      using discoverVideos_grows [of rt html] by (auto simp: grows_def)
  qed
  then have "set us \<subseteq> set (foundUrls (discoverVideos rt html))"
    by blast
  then have "card (set us) \<le> card (set (foundUrls (discoverVideos rt html)))"
    by (intro card_mono) simp_all
  moreover have "card (set us) = length us"
    using assms(1) by (rule distinct_card)
  moreover have "card (set (foundUrls (discoverVideos rt html))) \<le> length (foundUrls (discoverVideos rt html))"
    by (rule card_length)
  ultimately show ?thesis
    by (simp add: extractVideos_length)
qed

subsection \<open>Many URLs\<close>

text \<open>
  The quoted URL \<open>"http:\/\/scontent/x.mp4"\<close> for a code unit \<open>x\<close>, the URL it decodes to,
  and the text made of one quoted URL for each code unit of \<open>ids\<close>.
\<close>

definition quoted :: "codeunit \<Rightarrow> jsstring" where
  "quoted x = [34] @ js ''http:'' @ [92, 47, 92, 47] @ js ''scontent/'' @ [x] @ js ''.mp4'' @ [34]"

definition urlOf :: "codeunit \<Rightarrow> jsstring" where
  "urlOf x = js ''http://scontent/'' @ [x] @ js ''.mp4''"

definition letter :: "codeunit \<Rightarrow> bool" where
  "letter x = (65 \<le> x \<and> x \<le> 90)"

lemma search_quoted:
  assumes "letter x"
  shows "search (videoPatterns ! 31) (quoted x @ r) =
           Some \<lparr>skipped = [], whole = quoted x, group1 = None, rest = r\<rparr>"
proof -
  from assms have "x \<noteq> 34" "92 \<noteq> x" "46 \<noteq> x"
    by (auto simp: letter_def)
  then show ?thesis
    by (simp add: videoPatterns_def quoted_def js_def not_dq_def)
qed

lemma includes_quoted:
  assumes "letter x"
  shows "str_includes (quoted x @ r) [92, 117] = str_includes r [92, 117]"
    "str_includes (quoted x @ r) [92, 34] = str_includes r [92, 34]"
    "str_includes (quoted x @ r) [92, 92] = str_includes r [92, 92]"
    "str_includes (quoted x @ r) (js ''&quot;'') = str_includes r (js ''&quot;'')"
    "str_includes (quoted x @ r) (js ''&amp;'') = str_includes r (js ''&amp;'')"
    "str_includes (quoted x @ r) (js ''&lt;'') = str_includes r (js ''&lt;'')"
    "str_includes (quoted x @ r) (js ''&gt;'') = str_includes r (js ''&gt;'')"
proof -
  from assms have "92 \<noteq> x" "38 \<noteq> x"
    by (auto simp: letter_def)
  then show "str_includes (quoted x @ r) [92, 117] = str_includes r [92, 117]"
    "str_includes (quoted x @ r) [92, 34] = str_includes r [92, 34]"
    "str_includes (quoted x @ r) [92, 92] = str_includes r [92, 92]"
    "str_includes (quoted x @ r) (js ''&quot;'') = str_includes r (js ''&quot;'')"
    "str_includes (quoted x @ r) (js ''&amp;'') = str_includes r (js ''&amp;'')"
    "str_includes (quoted x @ r) (js ''&lt;'') = str_includes r (js ''&lt;'')"
    "str_includes (quoted x @ r) (js ''&gt;'') = str_includes r (js ''&gt;'')"
    by (simp_all add: quoted_def js_def)
qed

lemma decodeUrl_quoted:
  assumes "letter x"
  shows "decodeUrl (Str (quoted x)) = urlOf x"
  using assms
  by (simp add: letter_def decodeUrl_def quoted_def urlOf_def js_def stripTags_def stripQuotes_def
      stripToBaseURL_def is_quote_def canon_def removed_def not_gt_def is_dot_def trim_def
      is_space_def replaceRx.simps)


lemma bypassSignature_urlOf:
  assumes "letter x"
  shows "bypassSignature (urlOf x)"
  using assms
  by (simp add: letter_def bypassSignature_def survivesDiscard_def isManifestFragment_def
      startsHttp_def urlOf_def js_def)

lemma urlOf_inject: "urlOf x = urlOf y \<Longrightarrow> x = y"
  by (simp add: urlOf_def)

definition manyUrls :: "jsstring \<Rightarrow> jsstring" where
  "manyUrls ids = concat (map quoted ids)"

lemma execAll_Nil: "execAll (videoPatterns ! 31) [] = []"
  by (simp add: execAll.simps videoPatterns_def)

lemma execAll_quoted:
  assumes "letter x"
  shows "execAll (videoPatterns ! 31) (quoted x @ r) =
           \<lparr>skipped = [], whole = quoted x, group1 = None, rest = r\<rparr> #
           execAll (videoPatterns ! 31) r"
proof -
  have "length r < length (quoted x @ r)"
    by (simp add: quoted_def)
  then show ?thesis
    using execAll.simps [of "videoPatterns ! 31" "quoted x @ r"] search_quoted [OF assms, of r]
    by simp
qed

lemma execAll_manyUrls:
  "list_all letter ids \<Longrightarrow> map matchText (execAll (videoPatterns ! 31) (manyUrls ids)) = map quoted ids"
proof (induction ids)
  case Nil
  then show ?case by (simp add: manyUrls_def execAll_Nil)
next
  case (Cons x ids)
  then have "letter x" "list_all letter ids" by simp_all
  then show ?case
    using Cons.IH execAll_quoted [of x "manyUrls ids"]
    by (simp add: manyUrls_def matchText_def)
qed

lemma test_needs_literal: "test (Lit l # k) s \<Longrightarrow> str_includes s l"
proof -
  assume "test (Lit l # k) s"
  then obtain i where "rmatch (Lit l # k) (drop i s) None \<noteq> None"
    unfolding test_def search_iff by blast
  then have "starts l (drop i s)"
    by (simp split: if_splits)
  then obtain r where "drop i s = l @ r"
    unfolding starts_iff by blast
  then have "s = take i s @ l @ r"
    by (metis append_take_drop_id)
  then show ?thesis
    unfolding str_includes_iff by blast
qed

definition noEscapeStart :: "jsstring \<Rightarrow> bool" where
  "noEscapeStart s =
     (\<not> str_includes s [92, 117] \<and> \<not> str_includes s [92, 34] \<and> \<not> str_includes s [92, 92] \<and>
      \<not> str_includes s (js ''&quot;'') \<and> \<not> str_includes s (js ''&amp;'') \<and>
      \<not> str_includes s (js ''&lt;'') \<and> \<not> str_includes s (js ''&gt;''))"

lemma noEscapeStart_escapeFree: "noEscapeStart s \<Longrightarrow> escapeFree s"
  unfolding noEscapeStart_def escapeFree_def unicodeEscape_def
  using test_needs_literal by blast

lemma noEscapeStart_manyUrls: "list_all letter ids \<Longrightarrow> noEscapeStart (manyUrls ids)"
proof (induction ids)
  case Nil
  then show ?case by (simp add: manyUrls_def noEscapeStart_def js_def)
next
  case (Cons x ids)
  then have x: "letter x" and IH: "noEscapeStart (manyUrls ids)" by simp_all
  have m: "manyUrls (x # ids) = quoted x @ manyUrls ids"
    by (simp add: manyUrls_def)
  show ?case
    using IH unfolding noEscapeStart_def m includes_quoted [OF x] .
qed

lemma cleanHtml_manyUrls: "list_all letter ids \<Longrightarrow> cleanHtml (manyUrls ids) = manyUrls ids"
  by (intro cleanHtml_fixpoint noEscapeStart_escapeFree noEscapeStart_manyUrls)

text \<open>
  The result has an entry for each quoted URL: no stage caps it, whatever the runtime.
\<close>

theorem extractVideos_many:
  assumes "list_all letter ids" "distinct ids"
  shows "length ids \<le> length (extractVideos rt (manyUrls ids))"
proof -
  have "length (map urlOf ids) \<le> length (extractVideos rt (manyUrls ids))"
  proof (rule extractVideos_at_least)
    show "distinct (map urlOf ids)"
      using assms(2) by (simp add: distinct_map inj_on_def urlOf_inject)
  next
    fix u assume "u \<in> set (map urlOf ids)"
    then obtain x where x: "x \<in> set ids" "u = urlOf x" by auto
    then have lx: "letter x"
      using assms(1) by (simp add: list_all_iff)
    from x(1) have "quoted x \<in> set (map matchText (execAll (videoPatterns ! 31) (manyUrls ids)))"
      unfolding execAll_manyUrls [OF assms(1)] by simp
    then obtain mt where mt: "mt \<in> set (execAll (videoPatterns ! 31) (manyUrls ids))"
        "matchText mt = quoted x"
      by auto
    have "decodeUrl (Str (matchText mt)) = u \<and> bypassSignature u"
      using decodeUrl_quoted [OF lx] bypassSignature_urlOf [OF lx] x(2) mt(2) by simp
    with mt(1) show "\<exists>mt \<in> set (execAll (videoPatterns ! 31) (cleanHtml (manyUrls ids))).
             decodeUrl (Str (matchText mt)) = u \<and> bypassSignature u"
      unfolding cleanHtml_manyUrls [OF assms(1)] by blast
  qed
  then show ?thesis by simp
qed

text \<open>
  Claim C3 as stated fails: a text with 21 quoted URLs of rule 31 gives a result of more
  than 20 entries.
\<close>

theorem extractVideos_cap_counterexample:
  "\<not> length (extractVideos (plainRuntime (\<lambda>n. 1 / 2)) (manyUrls (js ''ABCDEFGHIJKLMNOPQRSTU''))) \<le> 20"
proof -
  have "list_all letter (js ''ABCDEFGHIJKLMNOPQRSTU'')" "distinct (js ''ABCDEFGHIJKLMNOPQRSTU'')"
    "length (js ''ABCDEFGHIJKLMNOPQRSTU'') = 21"
    by (simp_all add: js_def letter_def)
  then show ?thesis
    using extractVideos_many [of "js ''ABCDEFGHIJKLMNOPQRSTU''" "plainRuntime (\<lambda>n. 1 / 2)"]
    by simp
qed

subsection \<open>The fallback scan\<close>

lemma execAll_absent: "\<not> str_includes s l \<Longrightarrow> execAll (Lit l # k) s = []"
proof -
  assume "\<not> str_includes s l"
  then have "\<not> test (Lit l # k) s"
    using test_needs_literal [of l k s] by blast
  then have "search (Lit l # k) s = None"
    by (simp add: test_def)
  then show ?thesis
    by (simp add: execAll.simps)
qed

lemma includes_has_char: "str_includes s l \<Longrightarrow> c \<in> set l \<Longrightarrow> c \<in> set s"
  unfolding str_includes_iff by auto

lemma includes_of_longer: "str_includes s (a @ l @ b) \<Longrightarrow> str_includes s l"
proof -
  assume "str_includes s (a @ l @ b)"
  then obtain p q where "s = p @ (a @ l @ b) @ q"
    unfolding str_includes_iff by blast
  then have "s = (p @ a) @ l @ (b @ q)" by simp
  then show ?thesis
    unfolding str_includes_iff by blast
qed

text \<open>
  In a text without double quotes, backslashes, \<open>src=\<close>, \<open>blob:http\<close> and \<open>https://video\<close>
  only six rules of the table can match: every other rule starts with a literal that has
  one of them.
\<close>

lemma scanPatterns_https_only:
  assumes "34 \<notin> set s" "92 \<notin> set s" "\<not> str_includes s (js ''src='')"
    "\<not> str_includes s (js ''blob:http'')" "\<not> str_includes s (js ''https://video'')"
  shows "scanPatterns rt s st =
           foldl (scanPattern rt s) st
             [(15, [Lit (js ''https://''), Star not_quote_space, Lit (js ''.mp4''),
                    Opt [Lit (js ''?''), Star not_quote_space]]),
              (16, mp4With ''video''), (17, mp4With ''scontent''), (18, mp4With ''fbcdn''),
              (19, mp4With ''cdninstagram''), (21, mp4With ''.fbcdn.net'')]"
proof -
  have q: "execAll (Lit (34 # l) # k) s = []" for l k
    using assms(1) includes_has_char [of s "34 # l" 34] by (intro execAll_absent) auto
  have b: "execAll (Lit (92 # l) # k) s = []" for l k
    using assms(2) includes_has_char [of s "92 # l" 92] by (intro execAll_absent) auto
  have hv: "execAll (Lit (js ''https://video'') # k) s = []" for k
    using assms(5) by (rule execAll_absent)
  have a: "execAll (Lit (js ''src'' @ [61]) # k) s = []" for k
  proof (rule execAll_absent)
    have "js ''src'' @ [61] = js ''src=''"
      by (simp add: js_def)
    then show "\<not> str_includes s (js ''src'' @ [61])"
      using assms(3) by simp
  qed
  have da: "execAll (Lit (js ''data-src'' @ [61]) # k) s = []" for k
  proof (rule execAll_absent)
    have "js ''data-src'' @ [61] = js ''data-'' @ js ''src='' @ []"
      by (simp add: js_def)
    then show "\<not> str_includes s (js ''data-src'' @ [61])"
      using assms(3) includes_of_longer [of s "js ''data-''" "js ''src=''" "[]"] by auto
  qed
  have bl: "execAll (Lit (js ''blob:http'') # k) s = []" for k
    using assms(4) by (rule execAll_absent)
  show ?thesis
    by (simp add: scanPatterns_def scanPattern_def videoPatterns_def field_def
        mp4Field_def mp4Attr_def q b hv a da bl) (simp add: eval_nat_numeral)
qed

lemma foldl_admits:
  assumes "\<And>s x. grows s (f s x)" "\<And>s. u \<in> set (foundUrls (f s x0))" "x0 \<in> set xs"
  shows "u \<in> set (foundUrls (foldl f st xs))"
  using assms(3)
proof (induction xs arbitrary: st)
  case Nil
  then show ?case by simp
next
  case (Cons x xs)
  show ?case
  proof (cases "x0 = x")
    case True
    have "u \<in> set (foundUrls (f st x))"
      using assms(2) True by simp
    moreover have "grows (f st x) (foldl f (f st x) xs)"
      by (intro foldl_grows assms(1))
    ultimately show ?thesis
      by (auto simp: grows_def)
  next
    case False
    with Cons.prems have "x0 \<in> set xs" by simp
    from Cons.IH [OF this] show ?thesis by simp
  qed
qed

lemma fallbackMatch_admits:
  assumes "isValidVideoUrl rt (Str (decodeUrl (Str (matchText mt))))"
  shows "decodeUrl (Str (matchText mt)) \<in> set (foundUrls (fallbackMatch rt st mt))"
  using assms unfolding fallbackMatch_def Let_def by (simp add: foundUrls_addVideo)

text \<open>The fallback scan adds whatever the validator accepts.\<close>

lemma fallbackVideoSearch_admits:
  assumes "p \<in> set fallbackPatterns" "mt \<in> set (execAll p html)"
    "isValidVideoUrl rt (Str (decodeUrl (Str (matchText mt))))"
  shows "decodeUrl (Str (matchText mt)) \<in> set (foundUrls (fallbackVideoSearch rt html st))"
  unfolding fallbackVideoSearch_def
proof (rule foldl_admits [where ?x0.0 = p])
  show "grows s (foldl (fallbackMatch rt) s (execAll x html))" for s x
    by (intro foldl_grows fallbackMatch_grows)
  show "decodeUrl (Str (matchText mt)) \<in> set (foundUrls (foldl (fallbackMatch rt) s (execAll p html)))" for s
    using fallbackMatch_grows fallbackMatch_admits [OF assms(3)] assms(2)
    by (intro foldl_admits [where ?x0.0 = mt]) auto
  show "p \<in> set fallbackPatterns" by (rule assms(1))
qed

lemma extractVideos_urls:
  "set (map url (extractVideos rt html)) = set (foundUrls (discoverVideos rt html))"
proof -
  have "map url (videos (discoverVideos rt html)) = foundUrls (discoverVideos rt html)"
    using discoverVideos_wellFormed [of rt html] by (simp add: wellFormed_def)
  then have "set (foundUrls (discoverVideos rt html)) = url ` set (videos (discoverVideos rt html))"
    by (metis set_map)
  then show ?thesis
    by (simp add: extractVideos_def sortVideosByQuality_def)
qed

text \<open>When the rule loop adds nothing, what the fallback scan accepts reaches the result.\<close>

lemma fallback_reaches_result:
  assumes "scanPatterns rt (cleanHtml html) \<lparr>foundUrls = [], videos = [], draws = 0\<rparr>
             = \<lparr>foundUrls = [], videos = [], draws = 0\<rparr>"
    "p \<in> set fallbackPatterns" "mt \<in> set (execAll p (cleanHtml html))"
    "isValidVideoUrl rt (Str (decodeUrl (Str (matchText mt))))"
  shows "decodeUrl (Str (matchText mt)) \<in> set (map url (extractVideos rt html))"
proof -
  let ?st0 = "\<lparr>foundUrls = [], videos = [], draws = 0\<rparr>"
  define st2 where "st2 = fallbackVideoSearch rt (cleanHtml html) ?st0"
  define st3 where "st3 = mergeFound st2 (extractWithCheerio rt (cleanHtml html) (draws st2))"
  have "decodeUrl (Str (matchText mt)) \<in> set (foundUrls st2)"
    unfolding st2_def using assms(2-4) by (rule fallbackVideoSearch_admits)
  moreover have "grows st2 st3"
    unfolding st3_def by (rule mergeFound_grows)
  moreover have "grows st3 (mergeFound st3 (extractFromStructuredData rt (cleanHtml html) (draws st3)))"
    by (rule mergeFound_grows)
  moreover have "discoverVideos rt html
      = mergeFound st3 (extractFromStructuredData rt (cleanHtml html) (draws st3))"
    unfolding discoverVideos_def Let_def assms(1) st3_def st2_def by simp
  ultimately show ?thesis
    unfolding extractVideos_urls by (auto simp: grows_def)
qed

subsection \<open>A manifest fragment\<close>

text \<open>
  A URL of the CDN, 211 code units long, with \<open>indexRange\<close> among its query parameters, and
  the text that wraps it in the manifest tag \<open>BaseURL\<close>. The text has no \<open>video\<close>, \<open>source\<close>
  or \<open>script\<close> element, which is what the runtime \<open>plainRuntime\<close> says of it.
\<close>

definition fragmentUrl :: jsstring where
  "fragmentUrl = js ''https://scontent.x.fna.fbcdn.net/o1/v/t2/f2/m366/AbCdEfGhIjKlMnOpQrStUvWxYz0123456789-_AbCd_n.mp4?_nc_cat=104&ccb=9-4&oh=00_AfBcDeFgHiJkLmNoPqRsTuVwXyZ0123456789abcdef&oe=66AAAAAA&_nc_sid=5ec1d6&indexRange=0-999''"

definition fragmentText :: jsstring where
  "fragmentText = js ''<BaseURL>'' @ fragmentUrl @ js ''</BaseURL>''"

definition fragmentMatch :: rmatched where
  "fragmentMatch =
     \<lparr>skipped = js ''<BaseURL>'', whole = fragmentUrl @ js ''</BaseURL>'', group1 = None, rest = []\<rparr>"

lemma fragmentText_clean: "cleanHtml fragmentText = fragmentText"
  by code_simp

lemma fragmentText_literals:
  "34 \<notin> set fragmentText \<and> 92 \<notin> set fragmentText \<and> \<not> str_includes fragmentText (js ''src='') \<and>
   \<not> str_includes fragmentText (js ''blob:http'') \<and>
   \<not> str_includes fragmentText (js ''https://video'')"
  by code_simp

lemma fragmentText_rule15:
  "execAll [Lit (js ''https://''), Star not_quote_space, Lit (js ''.mp4''),
            Opt [Lit (js ''?''), Star not_quote_space]] fragmentText = [fragmentMatch]"
  by code_simp

lemma fragmentText_rule16: "execAll (mp4With ''video'') fragmentText = []"
  by code_simp

lemma fragmentText_rule17: "execAll (mp4With ''scontent'') fragmentText = [fragmentMatch]"
  by code_simp

lemma fragmentText_rule18: "execAll (mp4With ''fbcdn'') fragmentText = [fragmentMatch]"
  by code_simp

lemma fragmentText_rule19: "execAll (mp4With ''cdninstagram'') fragmentText = []"
  by code_simp

lemma fragmentText_rule21: "execAll (mp4With ''.fbcdn.net'') fragmentText = [fragmentMatch]"
  by code_simp

lemma fragmentMatch_decoded: "decodeUrl (Str (matchText fragmentMatch)) = fragmentUrl"
  by code_simp

lemma fragmentUrl_decoded: "decodeUrl (Str fragmentUrl) = fragmentUrl"
  by code_simp

lemma fragmentUrl_valid: "isValidVideoUrl (plainRuntime r) (Str fragmentUrl)"
  by code_simp

lemma fragmentUrl_marker: "str_includes fragmentUrl (js ''indexRange'')"
  by code_simp

lemma fragmentText_fallback:
  "search (fallbackPatterns ! 0) fragmentText
     = Some \<lparr>skipped = js ''<BaseURL>'', whole = fragmentUrl, group1 = None,
             rest = js ''</BaseURL>''\<rparr>"
  by code_simp

text \<open>The rule loop discards the candidate: four rules match it, none adds it.\<close>

lemma fragmentMatch_discarded: "scanMatch rt i st fragmentMatch = st"
  using fragmentUrl_marker
  by (intro scanMatch_discards) (simp add: fragmentMatch_decoded survivesDiscard_def isManifestFragment_def)

lemma fragmentText_rule_loop: "scanPatterns rt fragmentText st = st"
  using fragmentText_literals
  by (simp add: scanPatterns_https_only scanPattern_def fragmentText_rule15 fragmentText_rule16
      fragmentText_rule17 fragmentText_rule18 fragmentText_rule19 fragmentText_rule21
      fragmentMatch_discarded)

text \<open>
  Claim C9 at this text: the rule loop matches the URL and discards it for its marker
  \<open>indexRange\<close> (rule 15 and three more rules decode their match to it, and the loop adds
  nothing), so the fallback scan runs; its first pattern matches the same URL, the validator
  accepts it, and the URL with its manifest marker is in the result.
\<close>

theorem extractVideos_keeps_manifest_fragment:
  "str_includes fragmentUrl (js ''indexRange'') \<and>
   map (\<lambda>mt. decodeUrl (Str (matchText mt))) (execAll (videoPatterns ! 15) (cleanHtml fragmentText))
     = [fragmentUrl] \<and>
   scanPatterns (plainRuntime (\<lambda>n. 1 / 2)) (cleanHtml fragmentText)
       \<lparr>foundUrls = [], videos = [], draws = 0\<rparr> = \<lparr>foundUrls = [], videos = [], draws = 0\<rparr> \<and>
   fragmentUrl \<in> set (map url (extractVideos (plainRuntime (\<lambda>n. 1 / 2)) fragmentText))"
proof -
  let ?rt = "plainRuntime (\<lambda>n. 1 / 2)"
  let ?mt = "\<lparr>skipped = js ''<BaseURL>'', whole = fragmentUrl, group1 = None,
             rest = js ''</BaseURL>''\<rparr>"
  have r15: "videoPatterns ! 15 = [Lit (js ''https://''), Star not_quote_space, Lit (js ''.mp4''),
            Opt [Lit (js ''?''), Star not_quote_space]]"
    by (simp add: videoPatterns_def)
  have rule: "map (\<lambda>mt. decodeUrl (Str (matchText mt)))
                (execAll (videoPatterns ! 15) (cleanHtml fragmentText)) = [fragmentUrl]"
    unfolding fragmentText_clean r15 fragmentText_rule15 by (simp add: fragmentMatch_decoded)
  have none: "scanPatterns ?rt (cleanHtml fragmentText) \<lparr>foundUrls = [], videos = [], draws = 0\<rparr>
             = \<lparr>foundUrls = [], videos = [], draws = 0\<rparr>"
    unfolding fragmentText_clean by (rule fragmentText_rule_loop)
  have len: "length (js ''</BaseURL>'') < length fragmentText"
    by (simp add: fragmentText_def js_def)
  have "execAll (fallbackPatterns ! 0) fragmentText
          = ?mt # execAll (fallbackPatterns ! 0) (js ''</BaseURL>'')"
    using execAll.simps [of "fallbackPatterns ! 0" fragmentText] fragmentText_fallback len by simp
  then have mt: "?mt \<in> set (execAll (fallbackPatterns ! 0) (cleanHtml fragmentText))"
    unfolding fragmentText_clean by simp
  have p: "fallbackPatterns ! 0 \<in> set fallbackPatterns"
    by (simp add: fallbackPatterns_def)
  have u: "decodeUrl (Str (matchText ?mt)) = fragmentUrl"
    using fragmentUrl_decoded by (simp add: matchText_def)
  have "decodeUrl (Str (matchText ?mt)) \<in> set (map url (extractVideos ?rt fragmentText))"
    using none p mt
  proof (rule fallback_reaches_result)
    show "isValidVideoUrl ?rt (Str (decodeUrl (Str (matchText ?mt))))"
      unfolding u by (rule fragmentUrl_valid)
  qed
  then show ?thesis
    using fragmentUrl_marker rule none u by simp
qed

end
